theory Spec2Isabelle
  imports Complex_Main "HOL-Library.AList"
begin

section \<open>Objects, heap and errors\<close>

text \<open>
  The program (\<^verbatim>\<open>src/autoprompt/continuous_trigger_mlm.py\<close>) works on Python
  dictionaries whose values are torch tensors. A dictionary and a tensor are both
  objects that are shared by reference and mutated in place, so the model keeps them in
  a heap: an address is an index into the list of allocated objects.

  \<^item> A batch tensor of token ids is a list of rows of integers (\<open>LongT\<close>), a mask a
    list of rows of booleans (\<open>BoolT\<close>), an embedding tensor a list of rows of
    embedding vectors (\<open>EmbT\<close>); the embedding dimension is abstracted into the type
    \<open>'e\<close> of one vector.
  \<^item> A dictionary is an association list from keys to addresses, in insertion order.
  \<^item> Logits are floating point numbers in the source; the model takes them as reals
    (no NaN, no infinities) and the suppression constant \<^verbatim>\<open>-1e32\<close> as \<open>- (10 ^ 32)\<close>.
  \<^item> Every \<^verbatim>\<open>raise\<close>, failed \<^verbatim>\<open>assert\<close> and failing tensor operation is a
    value \<open>Inl e\<close>; the state reached when the exception was raised is returned with it.
\<close>

type_synonym addr = nat

datatype 'e obj =
    DictO "(string \<times> addr) list"
  | LongT "int list list"
  | BoolT "bool list list"
  | EmbT "'e list list"

datatype error =
    AssertionError
  | KeyError string
  | TypeError
  | IndexError
  | ShapeError
  | ValueError

type_synonym 'e kwargs = "(string \<times> 'e obj) list"

text \<open>
  The pretrained model is an external collaborator. The program uses three of its
  attributes: the embedding layer \<^verbatim>\<open>model.embeds\<close>, the trigger parameters
  \<^verbatim>\<open>model.relation_embeds\<close> (one vector per trigger position) and the call
  \<^verbatim>\<open>model(**kwargs, labels=labels)\<close>, whose first result is the logits tensor
  (batch \<times> sequence \<times> vocabulary). They are parameters of the model below; the call
  is taken to be a function of its arguments that mutates none of them.
\<close>

record 'e model =
  embeds :: "int \<Rightarrow> 'e"
  relation_embeds :: "'e list"
  forward :: "'e kwargs \<Rightarrow> int list list option \<Rightarrow> real list list list"

text \<open>
  The state: the heap, and the log of the keyword arguments of every call of the
  underlying model's forward pass, oldest first.
\<close>

record 'e state =
  heap :: "'e obj list"
  calls :: "'e kwargs list"

definition lookup :: "'e state \<Rightarrow> addr \<Rightarrow> 'e obj option" where
  "lookup s a = (if a < length (heap s) then Some (heap s ! a) else None)"

definition ok :: "'a \<Rightarrow> 'e state \<Rightarrow> (error + 'a) \<times> 'e state" where
  "ok x s = (Inr x, s)"

definition raise :: "error \<Rightarrow> 'e state \<Rightarrow> (error + 'a) \<times> 'e state" where
  "raise e s = (Inl e, s)"

definition andthen ::
  "('e state \<Rightarrow> (error + 'a) \<times> 'e state) \<Rightarrow> ('a \<Rightarrow> 'e state \<Rightarrow> (error + 'b) \<times> 'e state)
    \<Rightarrow> 'e state \<Rightarrow> (error + 'b) \<times> 'e state" where
  "andthen f g s = (case f s of (Inl e, s') \<Rightarrow> (Inl e, s') | (Inr x, s') \<Rightarrow> g x s')"

definition alloc :: "'e obj \<Rightarrow> 'e state \<Rightarrow> (error + addr) \<times> 'e state" where
  "alloc v s = (Inr (length (heap s)), s\<lparr>heap := heap s @ [v]\<rparr>)"

definition put :: "addr \<Rightarrow> 'e obj \<Rightarrow> 'e state \<Rightarrow> (error + unit) \<times> 'e state" where
  "put a v s = (Inr (), s\<lparr>heap := (heap s)[a := v]\<rparr>)"

text \<open>
  Reading an object as a dictionary or as a tensor of one kind. Using an object of
  another kind fails in Python in one way or another (AttributeError, TypeError, or
  integer indexing where a mask was meant); the model collapses these to \<open>TypeError\<close>.
\<close>

definition get_dict :: "addr \<Rightarrow> 'e state \<Rightarrow> (error + (string \<times> addr) list) \<times> 'e state" where
  "get_dict a s = (case lookup s a of Some (DictO kv) \<Rightarrow> (Inr kv, s) | _ \<Rightarrow> (Inl TypeError, s))"

definition get_long :: "addr \<Rightarrow> 'e state \<Rightarrow> (error + int list list) \<times> 'e state" where
  "get_long a s = (case lookup s a of Some (LongT x) \<Rightarrow> (Inr x, s) | _ \<Rightarrow> (Inl TypeError, s))"

definition get_bool :: "addr \<Rightarrow> 'e state \<Rightarrow> (error + bool list list) \<times> 'e state" where
  "get_bool a s = (case lookup s a of Some (BoolT x) \<Rightarrow> (Inr x, s) | _ \<Rightarrow> (Inl TypeError, s))"

definition get_emb :: "addr \<Rightarrow> 'e state \<Rightarrow> (error + 'e list list) \<times> 'e state" where
  "get_emb a s = (case lookup s a of Some (EmbT x) \<Rightarrow> (Inr x, s) | _ \<Rightarrow> (Inl TypeError, s))"

subsection \<open>Dictionary operations\<close>

text \<open>\<^verbatim>\<open>d.copy()\<close>: a new dictionary object with the same keys and the same references.\<close>

definition dict_copy :: "addr \<Rightarrow> 'e state \<Rightarrow> (error + addr) \<times> 'e state" where
  "dict_copy d = andthen (get_dict d) (\<lambda>kv. alloc (DictO kv))"

text \<open>\<^verbatim>\<open>d.pop(k)\<close>: removes the key from the dictionary object and returns the reference.\<close>

definition dict_pop :: "addr \<Rightarrow> string \<Rightarrow> 'e state \<Rightarrow> (error + addr) \<times> 'e state" where
  "dict_pop d k = andthen (get_dict d) (\<lambda>kv.
     case map_of kv k of
       None \<Rightarrow> raise (KeyError k)
     | Some a \<Rightarrow> andthen (put d (DictO (AList.delete k kv))) (\<lambda>_. ok a))"

text \<open>\<^verbatim>\<open>d[k]\<close> and \<^verbatim>\<open>d[k] = v\<close>.\<close>

definition dict_getitem :: "addr \<Rightarrow> string \<Rightarrow> 'e state \<Rightarrow> (error + addr) \<times> 'e state" where
  "dict_getitem d k = andthen (get_dict d) (\<lambda>kv.
     case map_of kv k of None \<Rightarrow> raise (KeyError k) | Some a \<Rightarrow> ok a)"

definition dict_setitem :: "addr \<Rightarrow> string \<Rightarrow> addr \<Rightarrow> 'e state \<Rightarrow> (error + unit) \<times> 'e state" where
  "dict_setitem d k a = andthen (get_dict d) (\<lambda>kv. put d (DictO (AList.update k a kv)))"

section \<open>Tensor operations\<close>

text \<open>\<^verbatim>\<open>mask.sum().item()\<close>: the number of true entries of the whole tensor.\<close>

definition count_true :: "bool list list \<Rightarrow> nat" where
  "count_true M = sum_list (map (\<lambda>row. length (filter id row)) M)"

text \<open>
  \<^verbatim>\<open>mask.nonzero()\<close>: the (row, column) pairs of the true entries, in row-major order.
\<close>

definition nonzero_row :: "nat \<Rightarrow> bool list \<Rightarrow> (nat \<times> nat) list" where
  "nonzero_row r row = map (\<lambda>c. (r, c)) (filter (\<lambda>c. row ! c) [0..<length row])"

definition nonzero :: "bool list list \<Rightarrow> (nat \<times> nat) list" where
  "nonzero M = concat (map (\<lambda>r. nonzero_row r (M ! r)) [0..<length M])"

text \<open>
  \<^verbatim>\<open>argmax\<close> over a vector: the index of the first maximal value (torch documents
  the first index on ties). It is only applied to non-empty vectors.
\<close>

definition argmax :: "real list \<Rightarrow> nat" where
  "argmax xs = length (takeWhile (\<lambda>x. x \<noteq> Max (set xs)) xs)"

text \<open>
  Boolean-mask indexing. \<^verbatim>\<open>X[mask]\<close> selects the entries at the true positions in
  row-major order; \<^verbatim>\<open>X[mask] = vals\<close> writes the values to the true positions in
  row-major order.
\<close>

definition row_select :: "bool list \<Rightarrow> 'a list \<Rightarrow> 'a list" where
  "row_select bs xs = map snd (filter fst (zip bs xs))"

definition masked_select :: "bool list list \<Rightarrow> 'a list list \<Rightarrow> 'a list" where
  "masked_select M X = concat (map2 row_select M X)"

fun row_put :: "bool list \<Rightarrow> 'a list \<Rightarrow> 'a list \<Rightarrow> 'a list" where
  "row_put (True # bs) (x # xs) (v # vs) = v # row_put bs xs vs"
| "row_put (False # bs) (x # xs) vs = x # row_put bs xs vs"
| "row_put bs xs vs = xs"

fun masked_put :: "bool list list \<Rightarrow> 'a list list \<Rightarrow> 'a list \<Rightarrow> 'a list list" where
  "masked_put (bs # M) (xs # X) vs =
     row_put bs xs (take (length (filter id bs)) vs)
       # masked_put M X (drop (length (filter id bs)) vs)"
| "masked_put M X vs = X"

text \<open>
  \<^verbatim>\<open>X[mask] = vals\<close> on an embedding tensor, as \<^verbatim>\<open>index_put_\<close> does it: the mask
  must have the shape of the leading dimensions of \<open>X\<close>; the value tensor must have as
  many rows as the mask has true entries, or exactly one row, which is then broadcast
  to all of them. Anything else is the shape mismatch error of torch.
\<close>

definition index_put_mask :: "addr \<Rightarrow> addr \<Rightarrow> 'e list \<Rightarrow> 'e state \<Rightarrow> (error + unit) \<times> 'e state" where
  "index_put_mask x mk vals =
     andthen (get_emb x) (\<lambda>X.
     andthen (get_bool mk) (\<lambda>M.
       if map length M \<noteq> map length X then raise IndexError
       else if length vals = count_true M then put x (EmbT (masked_put M X vals))
       else if length vals = 1 then put x (EmbT (masked_put M X (replicate (count_true M) (hd vals))))
       else raise ShapeError))"

text \<open>Column operations: \<^verbatim>\<open>X[:, idx] = pred\<close> with one value per row.\<close>

definition set_col :: "'a list list \<Rightarrow> nat \<Rightarrow> 'a list \<Rightarrow> 'a list list" where
  "set_col X idx pred = map2 (\<lambda>row p. row[idx := p]) X pred"

definition clear_col :: "bool list list \<Rightarrow> nat \<Rightarrow> bool list list" where
  "clear_col M idx = map (\<lambda>row. row[idx := False]) M"

text \<open>
  \<^verbatim>\<open>X[:, idx] = pred\<close> with a vector \<open>idx\<close> of column indices and a matrix \<open>pred\<close>
  (one row per row of \<open>X\<close>, one column per entry of \<open>idx\<close>).
\<close>

definition set_cols :: "'a list list \<Rightarrow> nat list \<Rightarrow> 'a list list \<Rightarrow> 'a list list" where
  "set_cols X idx pred =
     map2 (\<lambda>row ps. fold (\<lambda>(c, p) r. r[c := p]) (zip idx ps) row) X pred"

definition clear_cols :: "bool list list \<Rightarrow> nat list \<Rightarrow> bool list list" where
  "clear_cols M idx = map (\<lambda>row. fold (\<lambda>c r. r[c := False]) idx row) M"

text \<open>
  The shape contract of the logits: one row per example, one column per position, a
  non-empty vector of vocabulary scores at each position. A logits tensor of another
  shape makes the tensor operations of \<^verbatim>\<open>decode\<close> fail in torch; the model raises
  \<open>ShapeError\<close> for all of these.
\<close>

definition logits_shaped :: "'a list list \<Rightarrow> real list list list \<Rightarrow> bool" where
  "logits_shaped X logits \<longleftrightarrow>
     map length logits = map length X \<and> (\<forall>row \<in> set logits. \<forall>v \<in> set row. v \<noteq> [])"

section \<open>The trigger-augmented forward pass\<close>

text \<open>
  \<^verbatim>\<open>model(**model_inputs, labels=labels)\<close>: the references of the dictionary are
  passed as keyword arguments. A dictionary that already has a key \<^verbatim>\<open>labels\<close> makes
  the call a TypeError (two values for one keyword). The call is logged.
\<close>

definition call_model ::
  "'e model \<Rightarrow> addr \<Rightarrow> int list list option \<Rightarrow> 'e state \<Rightarrow> (error + real list list list) \<times> 'e state" where
  "call_model m d labels = andthen (get_dict d) (\<lambda>kv s.
     if map_of kv ''labels'' \<noteq> None \<or> (\<exists>a \<in> set (map snd kv). length (heap s) \<le> a)
     then raise TypeError s
     else let kw = map (\<lambda>(k, a). (k, heap s ! a)) kv
          in (Inr (forward m kw labels), s\<lparr>calls := calls s @ [kw]\<rparr>))"

definition forward_w_triggers ::
  "'e model \<Rightarrow> addr \<Rightarrow> int list list option \<Rightarrow> 'e state \<Rightarrow> (error + real list list list) \<times> 'e state" where
  "forward_w_triggers m model_inputs labels =
     andthen (dict_copy model_inputs) (\<lambda>model_inputs'.
     andthen (dict_pop model_inputs' ''trigger_mask'') (\<lambda>trigger_mask.
     andthen (dict_pop model_inputs' ''predict_mask'') (\<lambda>predict_mask.
     andthen (dict_pop model_inputs' ''input_ids'') (\<lambda>input_ids.
     andthen (get_long input_ids) (\<lambda>ids.
     andthen (alloc (EmbT (map (map (embeds m)) ids))) (\<lambda>inputs_embeds.
     andthen (index_put_mask inputs_embeds trigger_mask
                (concat (replicate (length ids) (relation_embeds m)))) (\<lambda>_.
     andthen (dict_setitem model_inputs' ''inputs_embeds'' inputs_embeds) (\<lambda>_.
     call_model m model_inputs' labels))))))))"

section \<open>The masked-position decoder\<close>

subsection \<open>Parallel\<close>

text \<open>
  \<^verbatim>\<open>predict_mask = model_inputs['predict_mask']\<close>
  \<^verbatim>\<open>logits, *_ = forward_w_triggers(model, model_inputs)\<close>
  \<^verbatim>\<open>preds = logits.argmax(dim=-1)\<close>
  \<^verbatim>\<open>output[predict_mask] = preds[predict_mask]\<close>
\<close>

definition decode_parallel ::
  "'e model \<Rightarrow> addr \<Rightarrow> int list list \<Rightarrow> 'e state \<Rightarrow> (error + int list list) \<times> 'e state" where
  "decode_parallel m model_inputs output =
     andthen (dict_getitem model_inputs ''predict_mask'') (\<lambda>predict_mask.
     andthen (forward_w_triggers m model_inputs None) (\<lambda>logits.
     andthen (get_bool predict_mask) (\<lambda>mask.
       if \<not> logits_shaped mask logits \<or> map length output \<noteq> map length mask
       then raise ShapeError
       else let preds = map (map (\<lambda>v. int (argmax v))) logits
            in ok (masked_put mask output (masked_select mask preds)))))"

subsection \<open>Monotonic\<close>

text \<open>
  One iteration of the loop:
  \<^verbatim>\<open>logits, *_ = forward_w_triggers(model, model_inputs)\<close>
  \<^verbatim>\<open>idx = predict_mask.nonzero()[0,1]\<close>
  \<^verbatim>\<open>pred = logits[:, idx].argmax(dim=-1)\<close>
  \<^verbatim>\<open>input_ids[:, idx] = pred\<close>
  \<^verbatim>\<open>output[:, idx] = pred\<close>
  \<^verbatim>\<open>predict_mask[:, idx] = False\<close>
  \<open>predict_mask\<close> and \<open>input_ids\<close> are the references taken from the dictionary before
  the loop; the writes go to the shared tensors. Indexing row 0 of an empty
  \<^verbatim>\<open>nonzero()\<close> result is an IndexError.
\<close>

definition monotonic_step ::
  "'e model \<Rightarrow> addr \<Rightarrow> addr \<Rightarrow> addr \<Rightarrow> int list list \<Rightarrow> 'e state \<Rightarrow> (error + int list list) \<times> 'e state" where
  "monotonic_step m model_inputs predict_mask input_ids output =
     andthen (forward_w_triggers m model_inputs None) (\<lambda>logits.
     andthen (get_bool predict_mask) (\<lambda>mask.
     andthen (get_long input_ids) (\<lambda>ids.
       case nonzero mask of
         [] \<Rightarrow> raise IndexError
       | (r, idx) # _ \<Rightarrow>
           if \<not> logits_shaped mask logits \<or> map length ids \<noteq> map length mask
              \<or> map length output \<noteq> map length mask
           then raise ShapeError
           else let pred = map (\<lambda>row. int (argmax (row ! idx))) logits
                in andthen (put input_ids (LongT (set_col ids idx pred))) (\<lambda>_.
                   andthen (put predict_mask (BoolT (clear_col mask idx))) (\<lambda>_.
                   ok (set_col output idx pred))))))"

text \<open>\<^verbatim>\<open>for i in range(iterations)\<close>, the output buffer threaded through.\<close>

fun monotonic_loop ::
  "'e model \<Rightarrow> addr \<Rightarrow> addr \<Rightarrow> addr \<Rightarrow> nat \<Rightarrow> int list list \<Rightarrow> 'e state \<Rightarrow> (error + int list list) \<times> 'e state" where
  "monotonic_loop m model_inputs predict_mask input_ids 0 output = ok output"
| "monotonic_loop m model_inputs predict_mask input_ids (Suc n) output =
     andthen (monotonic_step m model_inputs predict_mask input_ids output)
       (monotonic_loop m model_inputs predict_mask input_ids n)"

text \<open>
  \<^verbatim>\<open>predict_mask = model_inputs['predict_mask']\<close>
  \<^verbatim>\<open>input_ids = model_inputs['input_ids']\<close>
  \<^verbatim>\<open>iterations = predict_mask.sum().item()\<close>
\<close>

definition decode_monotonic ::
  "'e model \<Rightarrow> addr \<Rightarrow> int list list \<Rightarrow> 'e state \<Rightarrow> (error + int list list) \<times> 'e state" where
  "decode_monotonic m model_inputs output =
     andthen (dict_getitem model_inputs ''predict_mask'') (\<lambda>predict_mask.
     andthen (dict_getitem model_inputs ''input_ids'') (\<lambda>input_ids.
     andthen (get_bool predict_mask) (\<lambda>mask.
       monotonic_loop m model_inputs predict_mask input_ids (count_true mask) output)))"

subsection \<open>Iterative\<close>

text \<open>
  \<^verbatim>\<open>logits[~predict_mask] = -1e32\<close>: every vocabulary score at a position outside the
  mask is overwritten.
\<close>

definition suppress :: "bool list list \<Rightarrow> real list list list \<Rightarrow> real list list list" where
  "suppress M logits =
     map2 (map2 (\<lambda>b v. if b then v else map (\<lambda>_. - (10 ^ 32)) v)) M logits"

text \<open>\<^verbatim>\<open>top_scores, preds = torch.max(logits, dim=-1)\<close>\<close>

definition top_scores :: "real list list list \<Rightarrow> real list list" where
  "top_scores logits = map (map (\<lambda>v. Max (set v))) logits"

definition top_preds :: "real list list list \<Rightarrow> nat list list" where
  "top_preds logits = map (map argmax) logits"

text \<open>
  One iteration of the loop:
  \<^verbatim>\<open>logits, *_ = forward_w_triggers(model, model_inputs)\<close>
  \<^verbatim>\<open>logits[~predict_mask] = -1e32\<close>
  \<^verbatim>\<open>top_scores, preds = torch.max(logits, dim=-1)\<close>
  \<^verbatim>\<open>idx = torch.argmax(top_scores, dim=-1)\<close>
  \<^verbatim>\<open>pred = preds[:, idx]\<close>
  \<^verbatim>\<open>input_ids[:, idx] = pred\<close>
  \<^verbatim>\<open>output[:, idx] = pred\<close>
  \<^verbatim>\<open>predict_mask[:, idx] = False\<close>
  \<open>idx\<close> is a vector: the best column of every row. \<open>pred\<close> is a matrix: for every row,
  that row's predictions at all the columns of \<open>idx\<close>.
\<close>

definition iterative_step ::
  "'e model \<Rightarrow> addr \<Rightarrow> addr \<Rightarrow> addr \<Rightarrow> int list list \<Rightarrow> 'e state \<Rightarrow> (error + int list list) \<times> 'e state" where
  "iterative_step m model_inputs predict_mask input_ids output =
     andthen (forward_w_triggers m model_inputs None) (\<lambda>logits.
     andthen (get_bool predict_mask) (\<lambda>mask.
     andthen (get_long input_ids) (\<lambda>ids.
       if \<not> logits_shaped mask logits \<or> map length ids \<noteq> map length mask
          \<or> map length output \<noteq> map length mask
       then raise ShapeError
       else if [] \<in> set mask then raise IndexError
       else let logits' = suppress mask logits;
                top = top_scores logits';
                preds = top_preds logits';
                idx = map argmax top;
                pred = map (\<lambda>row. map (\<lambda>c. int (row ! c)) idx) preds
            in andthen (put input_ids (LongT (set_cols ids idx pred))) (\<lambda>_.
               andthen (put predict_mask (BoolT (clear_cols mask idx))) (\<lambda>_.
               ok (set_cols output idx pred))))))"

fun iterative_loop ::
  "'e model \<Rightarrow> addr \<Rightarrow> addr \<Rightarrow> addr \<Rightarrow> nat \<Rightarrow> int list list \<Rightarrow> 'e state \<Rightarrow> (error + int list list) \<times> 'e state" where
  "iterative_loop m model_inputs predict_mask input_ids 0 output = ok output"
| "iterative_loop m model_inputs predict_mask input_ids (Suc n) output =
     andthen (iterative_step m model_inputs predict_mask input_ids output)
       (iterative_loop m model_inputs predict_mask input_ids n)"

definition decode_iterative ::
  "'e model \<Rightarrow> addr \<Rightarrow> int list list \<Rightarrow> 'e state \<Rightarrow> (error + int list list) \<times> 'e state" where
  "decode_iterative m model_inputs output =
     andthen (dict_getitem model_inputs ''predict_mask'') (\<lambda>predict_mask.
     andthen (dict_getitem model_inputs ''input_ids'') (\<lambda>input_ids.
     andthen (get_bool predict_mask) (\<lambda>mask.
       iterative_loop m model_inputs predict_mask input_ids (count_true mask) output)))"

subsection \<open>decode\<close>

text \<open>
  \<^verbatim>\<open>assert decoding_strategy in ['parallel', 'monotonic', 'iterative']\<close>
  \<^verbatim>\<open>output = torch.zeros_like(model_inputs['input_ids'])\<close>
  \<^verbatim>\<open>output.fill_(-100)\<close>
  then the branch of the strategy; the final \<^verbatim>\<open>else: raise ValueError\<close> of the source
  is kept.
\<close>

definition decode ::
  "'e model \<Rightarrow> addr \<Rightarrow> string \<Rightarrow> 'e state \<Rightarrow> (error + int list list) \<times> 'e state" where
  "decode m model_inputs decoding_strategy =
     (if decoding_strategy \<notin> set [''parallel'', ''monotonic'', ''iterative'']
      then raise AssertionError
      else andthen (dict_getitem model_inputs ''input_ids'') (\<lambda>input_ids.
           andthen (get_long input_ids) (\<lambda>ids.
             let output = map (map (\<lambda>_. - 100)) ids
             in if decoding_strategy = ''parallel'' then decode_parallel m model_inputs output
                else if decoding_strategy = ''monotonic'' then decode_monotonic m model_inputs output
                else if decoding_strategy = ''iterative'' then decode_iterative m model_inputs output
                else raise ValueError)))"

section \<open>Auxiliary notions for the proofs\<close>

text \<open>A computation that raises neither AssertionError nor ValueError.\<close>

definition benign :: "('e state \<Rightarrow> (error + 'a) \<times> 'e state) \<Rightarrow> bool" where
  "benign f \<longleftrightarrow> (\<forall>s. fst (f s) \<noteq> Inl AssertionError \<and> fst (f s) \<noteq> Inl ValueError)"

text \<open>
  A computation that leaves the first \<open>n\<close> objects of the heap as they are, and whose
  result, when it returns one, satisfies \<open>P\<close>.
\<close>

definition preserves ::
  "nat \<Rightarrow> ('a \<Rightarrow> bool) \<Rightarrow> ('e state \<Rightarrow> (error + 'a) \<times> 'e state) \<Rightarrow> bool" where
  "preserves n P f \<longleftrightarrow>
     (\<forall>s. n \<le> length (heap s) \<longrightarrow>
        n \<le> length (heap (snd (f s))) \<and> take n (heap (snd (f s))) = take n (heap s)
        \<and> (\<forall>x. fst (f s) = Inr x \<longrightarrow> P x))"

text \<open>
  What \<^verbatim>\<open>forward_w_triggers\<close> builds, as functions of the values it reads: the
  dictionary passed to the model (the caller's keys without the three popped ones, with
  the embeddings added), the rows written to the trigger positions, and the embeddings.
\<close>

definition model_dict :: "(string \<times> addr) list \<Rightarrow> addr \<Rightarrow> (string \<times> addr) list" where
  "model_dict kv e =
     AList.update ''inputs_embeds'' e
       (AList.delete ''input_ids'' (AList.delete ''predict_mask'' (AList.delete ''trigger_mask'' kv)))"

definition trigger_values :: "'e model \<Rightarrow> nat \<Rightarrow> nat \<Rightarrow> 'e list" where
  "trigger_values m batch_size n =
     (let vals = concat (replicate batch_size (relation_embeds m))
      in if length vals = n then vals else replicate n (hd vals))"

definition inputs_embeds_of :: "'e model \<Rightarrow> int list list \<Rightarrow> bool list list \<Rightarrow> 'e list list" where
  "inputs_embeds_of m ids trig =
     masked_put trig (map (map (embeds m)) ids) (trigger_values m (length ids) (count_true trig))"

text \<open>
  The trigger mask fits the trigger parameters: as many true entries as rows of the
  repeated parameter tensor, or a single such row (which torch broadcasts).
\<close>

definition triggers_fit :: "'e model \<Rightarrow> int list list \<Rightarrow> bool list list \<Rightarrow> bool" where
  "triggers_fit m ids trig \<longleftrightarrow>
     count_true trig = length ids * length (relation_embeds m)
     \<or> length ids * length (relation_embeds m) = 1"

section \<open>Fixtures\<close>

text \<open>
  The end-to-end scenario of the specification: a batch of two examples of sequence
  length 6, trigger position 1 and predict position 4 in each, one trigger vector.
  Embedding vectors are integers here; the model scores three vocabulary entries at
  every position from the embedding at that position.
\<close>

definition scenario_model :: "int model" where
  "scenario_model =
     \<lparr> embeds = (\<lambda>i. i),
       relation_embeds = [1000],
       forward = (\<lambda>kw labels.
         case map_of kw ''inputs_embeds'' of
           Some (EmbT E) \<Rightarrow> map (map (\<lambda>e. [0, real_of_int e, 8])) E
         | _ \<Rightarrow> []) \<rparr>"

definition scenario_state :: "int state" where
  "scenario_state =
     \<lparr> heap =
         [DictO [(''input_ids'', 1), (''attention_mask'', 2), (''trigger_mask'', 3),
                 (''predict_mask'', 4)],
          LongT [[101, 0, 7, 8, 103, 102], [101, 0, 9, 5, 3, 102]],
          LongT [[1, 1, 1, 1, 1, 1], [1, 1, 1, 1, 1, 1]],
          BoolT [[False, True, False, False, False, False],
                 [False, True, False, False, False, False]],
          BoolT [[False, False, False, False, True, False],
                 [False, False, False, False, True, False]]],
       calls = [] \<rparr>"

text \<open>
  A single example with one trigger vector, whose trigger mask marks two positions.
\<close>

definition broadcast_state :: "int state" where
  "broadcast_state =
     \<lparr> heap =
         [DictO [(''input_ids'', 1), (''attention_mask'', 2), (''trigger_mask'', 3),
                 (''predict_mask'', 4)],
          LongT [[5, 6, 7]],
          LongT [[1, 1, 1]],
          BoolT [[True, True, False]],
          BoolT [[False, False, True]]],
       calls = [] \<rparr>"

text \<open>
  Two examples with one trigger vector, whose trigger mask marks three positions.
\<close>

definition mismatch_state :: "int state" where
  "mismatch_state =
     \<lparr> heap =
         [DictO [(''input_ids'', 1), (''attention_mask'', 2), (''trigger_mask'', 3),
                 (''predict_mask'', 4)],
          LongT [[5, 6, 7], [8, 9, 10]],
          LongT [[1, 1, 1], [1, 1, 1]],
          BoolT [[True, True, False], [True, False, False]],
          BoolT [[False, False, True], [False, False, True]]],
       calls = [] \<rparr>"

section \<open>Auxiliary notions for the decoder\<close>

text \<open>
  The heap after a successful forward pass and the keyword arguments the model was
  called with; the shape contract of the model; the output of the parallel strategy as
  a function of mask and logits.
\<close>

definition forward_heap :: "'e model \<Rightarrow> (string \<times> addr) list \<Rightarrow> int list list \<Rightarrow> bool list list \<Rightarrow> 'e state \<Rightarrow> 'e obj list" where
  "forward_heap m kv ids trig s =
     heap s @ [DictO (model_dict kv (Suc (length (heap s)))), EmbT (inputs_embeds_of m ids trig)]"

definition model_kwargs :: "'e model \<Rightarrow> (string \<times> addr) list \<Rightarrow> int list list \<Rightarrow> bool list list \<Rightarrow> 'e state \<Rightarrow> 'e kwargs" where
  "model_kwargs m kv ids trig s =
     map (\<lambda>(k, a). (k, forward_heap m kv ids trig s ! a)) (model_dict kv (Suc (length (heap s))))"

definition model_shaped :: "'e model \<Rightarrow> bool" where
  "model_shaped m \<longleftrightarrow>
     (\<forall>kw labels E. map_of kw ''inputs_embeds'' = Some (EmbT E) \<longrightarrow>
        logits_shaped E (forward m kw labels))"

definition parallel_output :: "bool list list \<Rightarrow> real list list list \<Rightarrow> int list list" where
  "parallel_output pm logits =
     map2 (map2 (\<lambda>b v. if b then int (argmax v) else - 100)) pm logits"

definition bundle_at ::
  "'e state \<Rightarrow> addr \<Rightarrow> (string \<times> addr) list \<Rightarrow> addr \<Rightarrow> addr \<Rightarrow> addr
    \<Rightarrow> int list list \<Rightarrow> bool list list \<Rightarrow> bool list list \<Rightarrow> bool" where
  "bundle_at s d kv a_ids a_trig a_pm ids trig pm \<longleftrightarrow>
     lookup s d = Some (DictO kv) \<and>
     map_of kv ''input_ids'' = Some a_ids \<and>
     map_of kv ''trigger_mask'' = Some a_trig \<and>
     map_of kv ''predict_mask'' = Some a_pm \<and>
     map_of kv ''labels'' = None \<and>
     (\<forall>a \<in> set (map snd kv). a < length (heap s)) \<and>
     lookup s a_ids = Some (LongT ids) \<and>
     lookup s a_trig = Some (BoolT trig) \<and>
     lookup s a_pm = Some (BoolT pm) \<and>
     a_trig \<noteq> a_pm \<and>
     map length trig = map length ids \<and>
     map length pm = map length ids"

definition no_predict_state :: "int state" where
  "no_predict_state =
     \<lparr> heap =
         [DictO [(''input_ids'', 1), (''attention_mask'', 2), (''trigger_mask'', 3),
                 (''predict_mask'', 4)],
          LongT [[101, 0, 7], [101, 0, 9]],
          LongT [[1, 1, 1], [1, 1, 1]],
          BoolT [[False, True, False], [False, True, False]],
          BoolT [[False, False, False], [False, False, False]]],
       calls = [] \<rparr>"

definition permute_rows :: "nat list \<Rightarrow> 'a list \<Rightarrow> 'a list" where
  "permute_rows p X = map (\<lambda>i. X ! i) p"

fun permute_obj :: "nat list \<Rightarrow> 'e obj \<Rightarrow> 'e obj" where
  "permute_obj p (LongT X) = LongT (permute_rows p X)"
| "permute_obj p (BoolT X) = BoolT (permute_rows p X)"
| "permute_obj p (EmbT X) = EmbT (permute_rows p X)"
| "permute_obj p (DictO kv) = DictO kv"

definition permute_kwargs :: "nat list \<Rightarrow> 'e kwargs \<Rightarrow> 'e kwargs" where
  "permute_kwargs p kw = map (\<lambda>(k, v). (k, permute_obj p v)) kw"

definition bundle_values :: "'e state \<Rightarrow> (string \<times> addr) list \<Rightarrow> 'e kwargs" where
  "bundle_values s kv = map (\<lambda>(k, a). (k, heap s ! a)) kv"

definition row_equivariant :: "'e model \<Rightarrow> bool" where
  "row_equivariant m \<longleftrightarrow>
     (\<forall>kw p E. map_of kw ''inputs_embeds'' = Some (EmbT E) \<longrightarrow> set p \<subseteq> {..<length E} \<longrightarrow>
        forward m (permute_kwargs p kw) None = permute_rows p (forward m kw None))"

text \<open>The scenario with its two examples in the other order.\<close>

definition swapped_state :: "int state" where
  "swapped_state =
     \<lparr> heap =
         [DictO [(''input_ids'', 1), (''attention_mask'', 2), (''trigger_mask'', 3),
                 (''predict_mask'', 4)],
          LongT [[101, 0, 9, 5, 3, 102], [101, 0, 7, 8, 103, 102]],
          LongT [[1, 1, 1, 1, 1, 1], [1, 1, 1, 1, 1, 1]],
          BoolT [[False, True, False, False, False, False],
                 [False, True, False, False, False, False]],
          BoolT [[False, False, False, False, True, False],
                 [False, False, False, False, True, False]]],
       calls = [] \<rparr>"

text \<open>
  The state after one iteration of a sequential strategy: the forward pass has allocated
  its two objects and logged its call, then the token ids and the predict mask have been
  overwritten in place.
\<close>

definition written_state ::
  "'e model \<Rightarrow> (string \<times> addr) list \<Rightarrow> int list list \<Rightarrow> bool list list \<Rightarrow> addr \<Rightarrow> int list list
    \<Rightarrow> addr \<Rightarrow> bool list list \<Rightarrow> 'e state \<Rightarrow> 'e state" where
  "written_state m kv ids trig a_ids ids' a_pm pm' s =
     s\<lparr>heap := (forward_heap m kv ids trig s)[a_ids := LongT ids', a_pm := BoolT pm'],
       calls := calls s @ [model_kwargs m kv ids trig s]\<rparr>"

text \<open>\<^verbatim>\<open>logits[:, idx].argmax(dim=-1)\<close>\<close>

definition monotonic_pred :: "real list list list \<Rightarrow> nat \<Rightarrow> int list" where
  "monotonic_pred logits idx = map (\<lambda>row. int (argmax (row ! idx))) logits"

text \<open>
  \<^verbatim>\<open>idx = torch.argmax(top_scores, dim=-1)\<close> and \<^verbatim>\<open>pred = preds[:, idx]\<close> of the
  iterative strategy, from the mask and the logits of the forward pass.
\<close>

definition iterative_idx :: "bool list list \<Rightarrow> real list list list \<Rightarrow> nat list" where
  "iterative_idx pm logits = map argmax (top_scores (suppress pm logits))"

definition iterative_pred :: "bool list list \<Rightarrow> real list list list \<Rightarrow> int list list" where
  "iterative_pred pm logits =
     map (\<lambda>row. map (\<lambda>c. int (row ! c)) (iterative_idx pm logits)) (top_preds (suppress pm logits))"

text \<open>
  Two examples whose predict masks differ: position 1 in the first, position 0 in the
  second. One trigger position (2) in each.
\<close>

definition crossed_state :: "int state" where
  "crossed_state =
     \<lparr> heap =
         [DictO [(''input_ids'', 1), (''attention_mask'', 2), (''trigger_mask'', 3),
                 (''predict_mask'', 4)],
          LongT [[11, 103, 0], [103, 12, 0]],
          LongT [[1, 1, 1], [1, 1, 1]],
          BoolT [[False, False, True], [False, False, True]],
          BoolT [[False, True, False], [True, False, False]]],
       calls = [] \<rparr>"

text \<open>
  The postcondition of \<^verbatim>\<open>decode\<close>: the buffer has the shape of the mask, holds a
  token id (a vocabulary index, so not negative) at every position of the mask and the
  ignore sentinel at every other position.
\<close>

definition resolved :: "bool list list \<Rightarrow> int list list \<Rightarrow> bool" where
  "resolved pm out \<longleftrightarrow> list_all2 (list_all2 (\<lambda>b x. if b then 0 \<le> x else x = - 100)) pm out"

text \<open>Every logit the model returns lies above the suppression value.\<close>

definition logits_above :: "'e model \<Rightarrow> bool" where
  "logits_above m \<longleftrightarrow>
     (\<forall>kw labels. \<forall>row \<in> set (forward m kw labels). \<forall>v \<in> set row. \<forall>x \<in> set v. - (10 ^ 32) < x)"

text \<open>
  A model with bounded logits: the scores at a position are computed from the embedding
  at that position modulo 7.
\<close>

definition bounded_model :: "int model" where
  "bounded_model =
     \<lparr> embeds = (\<lambda>i. i),
       relation_embeds = [1000],
       forward = (\<lambda>kw labels.
         case map_of kw ''inputs_embeds'' of
           Some (EmbT E) \<Rightarrow> map (map (\<lambda>e. [0, real_of_int (e mod 7), 3])) E
         | _ \<Rightarrow> []) \<rparr>"

text \<open>A model all of whose logits lie below the suppression value.\<close>

definition low_model :: "int model" where
  "low_model =
     \<lparr> embeds = (\<lambda>i. i),
       relation_embeds = [1000],
       forward = (\<lambda>kw labels.
         case map_of kw ''inputs_embeds'' of
           Some (EmbT E) \<Rightarrow> map (map (\<lambda>e. [- (10 ^ 33)])) E
         | _ \<Rightarrow> []) \<rparr>"

text \<open>
  A model whose logits depend on the whole row: the second score at a position grows
  when the sum of the embeddings of the row shrinks.
\<close>

definition context_model :: "int model" where
  "context_model =
     \<lparr> embeds = (\<lambda>i. i),
       relation_embeds = [1000],
       forward = (\<lambda>kw labels.
         case map_of kw ''inputs_embeds'' of
           Some (EmbT E) \<Rightarrow>
             map (\<lambda>row. map (\<lambda>e. [real_of_int e, real_of_int (2000 - sum_list row + e)]) row) E
         | _ \<Rightarrow> []) \<rparr>"

text \<open>A single example with predict positions 1 and 3 and trigger position 2.\<close>

definition single_state :: "int state" where
  "single_state =
     \<lparr> heap =
         [DictO [(''input_ids'', 1), (''attention_mask'', 2), (''trigger_mask'', 3),
                 (''predict_mask'', 4)],
          LongT [[5, 103, 0, 103]],
          LongT [[1, 1, 1, 1]],
          BoolT [[False, False, True, False]],
          BoolT [[False, True, False, True]]],
       calls = [] \<rparr>"

text \<open>A single example with predict positions 0 and 1 and trigger position 2.\<close>

definition pair_state :: "int state" where
  "pair_state =
     \<lparr> heap =
         [DictO [(''input_ids'', 1), (''attention_mask'', 2), (''trigger_mask'', 3),
                 (''predict_mask'', 4)],
          LongT [[5, 20, 0]],
          LongT [[1, 1, 1]],
          BoolT [[False, False, True]],
          BoolT [[True, True, False]]],
       calls = [] \<rparr>"

text \<open>
  The logit value at which the iterative strategy selects, for a single example: the
  suppressed top score at the selected position.
\<close>

definition selection_score :: "bool list list \<Rightarrow> real list list list \<Rightarrow> real" where
  "selection_score pm logits =
     hd (top_scores (suppress pm logits)) ! hd (iterative_idx pm logits)"


text \<open>
  A model with two trigger vectors whose forward pass works row by row: the second score
  at a position grows when the sum of the embeddings of its row shrinks.
\<close>

definition mixing_model :: "int model" where
  "mixing_model =
     \<lparr> embeds = (\<lambda>i. i),
       relation_embeds = [1000, 2000],
       forward = (\<lambda>kw labels.
         case map_of kw ''inputs_embeds'' of
           Some (EmbT E) \<Rightarrow>
             map (\<lambda>row. map (\<lambda>e. [real_of_int e, real_of_int (2000 - sum_list row + e)]) row) E
         | _ \<Rightarrow> []) \<rparr>"

text \<open>
  Two examples with four trigger positions in all, three in the first and one in the
  second; the same bundle with the two examples in the other order.
\<close>

definition mixed_state :: "int state" where
  "mixed_state =
     \<lparr> heap =
         [DictO [(''input_ids'', 1), (''attention_mask'', 2), (''trigger_mask'', 3),
                 (''predict_mask'', 4)],
          LongT [[1, 2, 3], [5, 6, 7]],
          LongT [[1, 1, 1], [1, 1, 1]],
          BoolT [[True, True, True], [False, True, False]],
          BoolT [[False, False, False], [True, False, False]]],
       calls = [] \<rparr>"

definition mixed_swapped_state :: "int state" where
  "mixed_swapped_state =
     \<lparr> heap =
         [DictO [(''input_ids'', 1), (''attention_mask'', 2), (''trigger_mask'', 3),
                 (''predict_mask'', 4)],
          LongT [[5, 6, 7], [1, 2, 3]],
          LongT [[1, 1, 1], [1, 1, 1]],
          BoolT [[False, True, False], [True, True, True]],
          BoolT [[True, False, False], [False, False, False]]],
       calls = [] \<rparr>"

text \<open>
  A run of \<open>n\<close> iterations of best-first decoding of a single example, in the words of
  the specification: every iteration runs one forward pass on the bundle as it stands
  (one call is logged), commits an open predict position whose top logit in that pass is
  at least the top logit of every open position and greater than that of every open
  position to its left, writes the argmax token at that position to the output buffer
  and to the shared token ids, and clears the position in the shared predict mask.
\<close>

inductive best_first_run ::
  "'e model \<Rightarrow> addr \<Rightarrow> (string \<times> addr) list \<Rightarrow> addr \<Rightarrow> addr \<Rightarrow> addr \<Rightarrow> bool list
    \<Rightarrow> nat \<Rightarrow> 'e state \<Rightarrow> int list \<Rightarrow> 'e state \<Rightarrow> int list \<Rightarrow> bool"
  for m :: "'e model" and d :: addr and kv :: "(string \<times> addr) list"
    and a_ids :: addr and a_trig :: addr and a_pm :: addr and trig :: "bool list"
  where
    finished: "best_first_run m d kv a_ids a_trig a_pm trig 0 s out s out"
  | commit:
      "bundle_at s d kv a_ids a_trig a_pm [ids] [trig] [pm] \<Longrightarrow>
       l = hd (forward m (model_kwargs m kv [ids] [trig] s) None) \<Longrightarrow>
       p < length pm \<Longrightarrow> pm ! p \<Longrightarrow>
       (\<forall>c < length pm. pm ! c \<longrightarrow> Max (set (l ! c)) \<le> Max (set (l ! p))) \<Longrightarrow>
       (\<forall>c < p. pm ! c \<longrightarrow> Max (set (l ! c)) < Max (set (l ! p))) \<Longrightarrow>
       t = int (argmax (l ! p)) \<Longrightarrow>
       calls s1 = calls s @ [model_kwargs m kv [ids] [trig] s] \<Longrightarrow>
       bundle_at s1 d kv a_ids a_trig a_pm [ids[p := t]] [trig] [pm[p := False]] \<Longrightarrow>
       best_first_run m d kv a_ids a_trig a_pm trig n s1 (out[p := t]) s' out' \<Longrightarrow>
       best_first_run m d kv a_ids a_trig a_pm trig (Suc n) s out s' out'"

text \<open>
  A single example whose two predict positions get different top logits from
  \<open>bounded_model\<close>: 5 at position 1 and 6 at position 3.
\<close>

definition graded_state :: "int state" where
  "graded_state =
     \<lparr> heap =
         [DictO [(''input_ids'', 1), (''attention_mask'', 2), (''trigger_mask'', 3),
                 (''predict_mask'', 4)],
          LongT [[5, 103, 0, 104]],
          LongT [[1, 1, 1, 1]],
          BoolT [[False, False, True, False]],
          BoolT [[False, True, False, True]]],
       calls = [] \<rparr>"



section \<open>Sequencing\<close>

lemma andthen_ok: "f s = (Inr x, s') \<Longrightarrow> andthen f g s = g x s'"
  by (simp add: andthen_def)

lemma andthen_err: "f s = (Inl e, s') \<Longrightarrow> andthen f g s = (Inl e, s')"
  by (simp add: andthen_def)

section \<open>The strategy check\<close>

lemma benign_andthen:
  assumes "benign f" and "\<And>x. benign (g x)"
  shows "benign (andthen f g)"
  unfolding benign_def
proof
  fix s
  obtain r s' where fs: "f s = (r, s')" by (cases "f s")
  from assms(1) have "fst (f s) \<noteq> Inl AssertionError" "fst (f s) \<noteq> Inl ValueError"
    by (simp_all add: benign_def)
  with fs have r: "r \<noteq> Inl AssertionError" "r \<noteq> Inl ValueError" by simp_all
  show "fst (andthen f g s) \<noteq> Inl AssertionError \<and> fst (andthen f g s) \<noteq> Inl ValueError"
  proof (cases r)
    case (Inl e)
    with r fs show ?thesis by (simp add: andthen_def)
  next
    case (Inr x)
    with fs assms(2)[of x] show ?thesis by (simp add: andthen_def benign_def)
  qed
qed

lemma benign_ok: "benign (ok x)"
  by (simp add: benign_def ok_def)

lemma benign_raise: "e \<noteq> AssertionError \<Longrightarrow> e \<noteq> ValueError \<Longrightarrow> benign (raise e)"
  by (simp add: benign_def raise_def)

lemma benign_if: "benign f \<Longrightarrow> benign g \<Longrightarrow> benign (if b then f else g)"
  by simp

lemma benign_prims:
  "benign (get_dict a)" "benign (get_long a)" "benign (get_bool a)" "benign (get_emb a)"
  "benign (alloc v)" "benign (put a v)"
  by (auto simp: benign_def get_dict_def get_long_def get_bool_def get_emb_def alloc_def put_def
      split: option.splits obj.splits)

lemma benign_dict:
  "benign (dict_copy d)" "benign (dict_pop d k)" "benign (dict_getitem d k)"
  "benign (dict_setitem d k a)"
  by (auto simp: dict_copy_def dict_pop_def dict_getitem_def dict_setitem_def
      intro!: benign_andthen benign_prims benign_ok benign_raise split: option.splits)

lemma benign_index_put_mask: "benign (index_put_mask x mk vals)"
  unfolding index_put_mask_def
  by (intro benign_andthen benign_prims benign_if benign_raise) simp_all

lemma benign_call_model: "benign (call_model m d labels)"
  unfolding call_model_def
  by (rule benign_andthen[OF benign_prims(1)]) (simp add: benign_def raise_def Let_def)

lemma benign_forward_w_triggers: "benign (forward_w_triggers m d labels)"
  unfolding forward_w_triggers_def
  by (intro benign_andthen benign_dict benign_prims benign_index_put_mask benign_call_model)

lemma benign_decode_parallel: "benign (decode_parallel m d out)"
  unfolding decode_parallel_def Let_def
  by (intro benign_andthen benign_dict benign_prims benign_forward_w_triggers benign_if
      benign_raise benign_ok) simp_all

lemma benign_monotonic_step: "benign (monotonic_step m d pm ii out)"
  unfolding monotonic_step_def Let_def
  by (intro benign_andthen benign_dict benign_prims benign_forward_w_triggers)
     (auto split: list.splits intro!: benign_andthen benign_prims benign_raise benign_ok)

lemma benign_monotonic_loop: "benign (monotonic_loop m d pm ii n out)"
  by (induction n arbitrary: out)
     (auto intro!: benign_andthen benign_ok benign_monotonic_step)

lemma benign_iterative_step: "benign (iterative_step m d pm ii out)"
  unfolding iterative_step_def Let_def
  by (intro benign_andthen benign_dict benign_prims benign_forward_w_triggers benign_if
      benign_raise benign_ok) simp_all

lemma benign_iterative_loop: "benign (iterative_loop m d pm ii n out)"
  by (induction n arbitrary: out)
     (auto intro!: benign_andthen benign_ok benign_iterative_step)

lemma benign_decode_monotonic: "benign (decode_monotonic m d out)"
  unfolding decode_monotonic_def
  by (intro benign_andthen benign_dict benign_prims benign_monotonic_loop)

lemma benign_decode_iterative: "benign (decode_iterative m d out)"
  unfolding decode_iterative_def
  by (intro benign_andthen benign_dict benign_prims benign_iterative_loop)

text \<open>
  Claim C6. A strategy outside parallel, monotonic and iterative makes \<open>decode\<close> fail
  with the assertion error at once: the state is the one at entry (nothing was
  allocated, no forward pass was logged). For the three named strategies \<open>decode\<close>
  never fails with the assertion error, nor with the ValueError of the final
  \<^verbatim>\<open>else\<close> branch.
\<close>

theorem decode_strategy_check:
  "(strategy \<notin> {''parallel'', ''monotonic'', ''iterative''} \<longrightarrow>
      decode m d strategy s = (Inl AssertionError, s)) \<and>
   (strategy \<in> {''parallel'', ''monotonic'', ''iterative''} \<longrightarrow>
      fst (decode m d strategy s) \<noteq> Inl AssertionError \<and>
      fst (decode m d strategy s) \<noteq> Inl ValueError)"
proof -
  have "benign (andthen (dict_getitem d ''input_ids'') (\<lambda>input_ids.
           andthen (get_long input_ids) (\<lambda>ids.
             let output = map (map (\<lambda>_. - 100)) ids
             in if strategy = ''parallel'' then decode_parallel m d output
                else if strategy = ''monotonic'' then decode_monotonic m d output
                else decode_iterative m d output)))"
    unfolding Let_def
    by (intro benign_andthen benign_dict benign_prims benign_if benign_decode_parallel
        benign_decode_monotonic benign_decode_iterative)
  then show ?thesis
    by (auto simp: decode_def raise_def benign_def Let_def)
qed

theorem decode_strategy_check_witness:
  "decode scenario_model 0 ''greedy'' scenario_state = (Inl AssertionError, scenario_state) \<and>
   fst (decode scenario_model 0 ''iterative'' scenario_state) \<noteq> Inl AssertionError \<and>
   fst (decode scenario_model 0 ''iterative'' scenario_state) \<noteq> Inl ValueError"
  using decode_strategy_check[of "''greedy''" scenario_model 0 scenario_state]
    decode_strategy_check[of "''iterative''" scenario_model 0 scenario_state]
  by simp

section \<open>The frame of the forward pass\<close>

lemma preserves_andthen:
  fixes f :: "'e state \<Rightarrow> (error + 'a) \<times> 'e state"
  assumes f: "preserves n P f" and g: "\<And>x. P x \<Longrightarrow> preserves n Q (g x)"
  shows "preserves n Q (andthen f g)"
  unfolding preserves_def
proof (intro allI impI)
  fix s :: "'e state"
  assume n: "n \<le> length (heap s)"
  obtain r s' where fs: "f s = (r, s')" by (cases "f s")
  from f n fs have s': "n \<le> length (heap s')" "take n (heap s') = take n (heap s)"
    and P: "\<And>x. r = Inr x \<Longrightarrow> P x"
    by (auto simp: preserves_def)
  show "n \<le> length (heap (snd (andthen f g s))) \<and>
        take n (heap (snd (andthen f g s))) = take n (heap s) \<and>
        (\<forall>x. fst (andthen f g s) = Inr x \<longrightarrow> Q x)"
  proof (cases r)
    case (Inl e)
    with fs s' show ?thesis by (simp add: andthen_def)
  next
    case (Inr x)
    with P have "preserves n Q (g x)" by (intro g) simp
    with s' have "n \<le> length (heap (snd (g x s')))"
      "take n (heap (snd (g x s'))) = take n (heap s)"
      "\<And>y. fst (g x s') = Inr y \<Longrightarrow> Q y"
      by (auto simp: preserves_def)
    with fs Inr show ?thesis by (simp add: andthen_def)
  qed
qed

lemma preserves_reads:
  "preserves n (\<lambda>_. True) (get_dict a)" "preserves n (\<lambda>_. True) (get_long a)"
  "preserves n (\<lambda>_. True) (get_bool a)" "preserves n (\<lambda>_. True) (get_emb a)"
  "preserves n (\<lambda>_. True) (raise e)" "preserves n (\<lambda>_. True) (ok x)"
  by (auto simp: preserves_def get_dict_def get_long_def get_bool_def get_emb_def raise_def ok_def
      split: option.splits obj.splits)

lemma preserves_alloc: "preserves n (\<lambda>a. n \<le> a) (alloc v)"
  by (simp add: preserves_def alloc_def)

lemma preserves_put: "n \<le> a \<Longrightarrow> preserves n (\<lambda>_. True) (put a v)"
  by (simp add: preserves_def put_def)

lemma preserves_dict_copy: "preserves n (\<lambda>a. n \<le> a) (dict_copy d)"
  unfolding dict_copy_def by (rule preserves_andthen[OF preserves_reads(1) preserves_alloc])

lemma preserves_dict_pop: "n \<le> d \<Longrightarrow> preserves n (\<lambda>_. True) (dict_pop d k)"
  unfolding dict_pop_def
  by (rule preserves_andthen[OF preserves_reads(1)])
     (auto split: option.splits intro!: preserves_andthen preserves_reads preserves_put)

lemma preserves_dict_setitem: "n \<le> d \<Longrightarrow> preserves n (\<lambda>_. True) (dict_setitem d k a)"
  unfolding dict_setitem_def
  by (rule preserves_andthen[OF preserves_reads(1) preserves_put])

lemma preserves_index_put_mask:
  "n \<le> x \<Longrightarrow> preserves n (\<lambda>_. True) (index_put_mask x mk vals)"
  unfolding index_put_mask_def
  by (rule preserves_andthen[OF preserves_reads(4)], rule preserves_andthen[OF preserves_reads(3)])
     (simp add: preserves_reads preserves_put)

lemma preserves_call_model: "preserves n (\<lambda>_. True) (call_model m d labels)"
  unfolding call_model_def
  by (rule preserves_andthen[OF preserves_reads(1)]) (simp add: preserves_def raise_def Let_def)

lemma preserves_forward_w_triggers: "preserves n (\<lambda>_. True) (forward_w_triggers m d labels)"
  unfolding forward_w_triggers_def
  apply (rule preserves_andthen[OF preserves_dict_copy])
  apply (rule preserves_andthen[OF preserves_dict_pop], assumption)
  apply (rule preserves_andthen[OF preserves_dict_pop], assumption)
  apply (rule preserves_andthen[OF preserves_dict_pop], assumption)
  apply (rule preserves_andthen[OF preserves_reads(2)])
  apply (rule preserves_andthen[OF preserves_alloc])
  apply (rule preserves_andthen[OF preserves_index_put_mask], assumption)
  apply (rule preserves_andthen[OF preserves_dict_setitem], assumption)
  apply (rule preserves_call_model)
  done

text \<open>
  Claim C4. Whatever the bundle and whether the call returns or raises, every object
  that was allocated when \<open>forward_w_triggers\<close> was called (the caller's dictionary with
  all its entries, and every tensor it refers to) is the same object with the same
  contents afterwards: the heap at entry is a prefix of the heap at exit. The pops and
  the added key go to the copy of the dictionary, the trigger vectors to the new
  embeddings tensor.
\<close>

theorem forward_w_triggers_frame:
  "take (length (heap s)) (heap (snd (forward_w_triggers m model_inputs labels s))) = heap s"
  using preserves_forward_w_triggers[of "length (heap s)" m model_inputs labels]
  by (simp add: preserves_def)

section \<open>The forward pass, step by step\<close>

lemma lookup_heap: "lookup s a = Some v \<longleftrightarrow> a < length (heap s) \<and> heap s ! a = v"
  by (auto simp: lookup_def)

lemma get_ok:
  "lookup s a = Some (DictO kv) \<Longrightarrow> get_dict a s = (Inr kv, s)"
  "lookup s a = Some (LongT x) \<Longrightarrow> get_long a s = (Inr x, s)"
  "lookup s a = Some (BoolT b) \<Longrightarrow> get_bool a s = (Inr b, s)"
  "lookup s a = Some (EmbT e) \<Longrightarrow> get_emb a s = (Inr e, s)"
  by (simp_all add: get_dict_def get_long_def get_bool_def get_emb_def)

lemma dict_copy_ok:
  "lookup s d = Some (DictO kv) \<Longrightarrow>
   dict_copy d s = (Inr (length (heap s)), s\<lparr>heap := heap s @ [DictO kv]\<rparr>)"
  by (simp add: dict_copy_def andthen_def get_ok alloc_def)

lemma dict_pop_ok:
  "lookup s d = Some (DictO kv) \<Longrightarrow> map_of kv k = Some a \<Longrightarrow>
   dict_pop d k s = (Inr a, s\<lparr>heap := (heap s)[d := DictO (AList.delete k kv)]\<rparr>)"
  by (simp add: dict_pop_def andthen_def get_ok put_def ok_def)

lemma dict_getitem_ok:
  "lookup s d = Some (DictO kv) \<Longrightarrow> map_of kv k = Some a \<Longrightarrow> dict_getitem d k s = (Inr a, s)"
  by (simp add: dict_getitem_def andthen_def get_ok ok_def)

lemma dict_setitem_ok:
  "lookup s d = Some (DictO kv) \<Longrightarrow>
   dict_setitem d k a s = (Inr (), s\<lparr>heap := (heap s)[d := DictO (AList.update k a kv)]\<rparr>)"
  by (simp add: dict_setitem_def andthen_def get_ok put_def)

lemma length_concat_replicate: "length (concat (replicate n xs)) = n * length xs"
  by (induction n) auto

lemma index_put_mask_ok:
  assumes "lookup s x = Some (EmbT X)" "lookup s mk = Some (BoolT M)"
    and "map length M = map length X"
    and "length vals = count_true M \<or> length vals = 1"
  shows "index_put_mask x mk vals s =
     (Inr (), s\<lparr>heap := (heap s)[x := EmbT (masked_put M X
        (if length vals = count_true M then vals else replicate (count_true M) (hd vals)))]\<rparr>)"
  using assms(3,4)
  by (auto simp: index_put_mask_def andthen_def get_ok(4)[OF assms(1)] get_ok(3)[OF assms(2)]
      put_def)

lemma index_put_mask_mismatch:
  assumes "lookup s x = Some (EmbT X)" "lookup s mk = Some (BoolT M)"
    and "map length M = map length X"
    and "length vals \<noteq> count_true M" "length vals \<noteq> 1"
  shows "index_put_mask x mk vals s = (Inl ShapeError, s)"
  using assms(3,4,5)
  by (auto simp: index_put_mask_def andthen_def get_ok(4)[OF assms(1)] get_ok(3)[OF assms(2)]
      raise_def)

lemma snd_update_subset:
  "set (map snd (AList.update k v al)) \<subseteq> insert v (set (map snd al))"
  by (induction al) auto

lemma snd_delete_subset: "set (map snd (AList.delete k al)) \<subseteq> set (map snd al)"
  by (auto simp: AList.delete_eq)

lemma snd_model_dict: "set (map snd (model_dict kv e)) \<subseteq> insert e (set (map snd kv))"
proof -
  have "set (map snd (AList.delete ''input_ids'' (AList.delete ''predict_mask''
          (AList.delete ''trigger_mask'' kv)))) \<subseteq> set (map snd kv)"
    using snd_delete_subset[of "''input_ids''"] snd_delete_subset[of "''predict_mask''"]
      snd_delete_subset[of "''trigger_mask''"] by (meson order_trans)
  then have "insert e (set (map snd (AList.delete ''input_ids'' (AList.delete ''predict_mask''
          (AList.delete ''trigger_mask'' kv))))) \<subseteq> insert e (set (map snd kv))"
    by (rule insert_mono)
  then show ?thesis
    unfolding model_dict_def by (rule order_trans[OF snd_update_subset])
qed

lemma call_model_ok:
  assumes "lookup s d = Some (DictO kv)" "map_of kv ''labels'' = None"
    and "\<forall>a \<in> set (map snd kv). a < length (heap s)"
  shows "call_model m d labels s =
     (Inr (forward m (map (\<lambda>(k, a). (k, heap s ! a)) kv) labels),
      s\<lparr>calls := calls s @ [map (\<lambda>(k, a). (k, heap s ! a)) kv]\<rparr>)"
  using assms(2,3)
  by (auto simp: call_model_def andthen_def get_ok(1)[OF assms(1)] Let_def raise_def)

text \<open>
  Up to the masked assignment: the copy, the three pops and the allocation of the
  embeddings always go through on a bundle that has the three keys.
\<close>

lemma forward_w_triggers_prefix:
  assumes d: "lookup s d = Some (DictO kv)"
    and keys: "map_of kv ''trigger_mask'' = Some a_trig" "map_of kv ''predict_mask'' = Some a_pm"
      "map_of kv ''input_ids'' = Some a_ids"
    and ids: "lookup s a_ids = Some (LongT ids)"
  shows "forward_w_triggers m d labels s =
     andthen (index_put_mask (Suc (length (heap s))) a_trig
                (concat (replicate (length ids) (relation_embeds m)))) (\<lambda>_.
     andthen (dict_setitem (length (heap s)) ''inputs_embeds'' (Suc (length (heap s)))) (\<lambda>_.
     call_model m (length (heap s)) labels))
       (s\<lparr>heap := heap s @
          [DictO (AList.delete ''input_ids'' (AList.delete ''predict_mask''
             (AList.delete ''trigger_mask'' kv))),
           EmbT (map (map (embeds m)) ids)]\<rparr>)"
proof -
  let ?n = "length (heap s)"
  let ?kv1 = "AList.delete ''trigger_mask'' kv"
  let ?kv2 = "AList.delete ''predict_mask'' ?kv1"
  let ?kv3 = "AList.delete ''input_ids'' ?kv2"
  let ?E0 = "map (map (embeds m)) ids"
  define s1 where "s1 = s\<lparr>heap := heap s @ [DictO kv]\<rparr>"
  define s2 where "s2 = s\<lparr>heap := heap s @ [DictO ?kv1]\<rparr>"
  define s3 where "s3 = s\<lparr>heap := heap s @ [DictO ?kv2]\<rparr>"
  define s4 where "s4 = s\<lparr>heap := heap s @ [DictO ?kv3]\<rparr>"
  define s5 where "s5 = s\<lparr>heap := heap s @ [DictO ?kv3, EmbT ?E0]\<rparr>"
  have a_ids_n: "a_ids < ?n" and h_ids: "heap s ! a_ids = LongT ids"
    using ids by (auto simp: lookup_heap)
  have c1: "dict_copy d s = (Inr ?n, s1)"
    unfolding s1_def by (rule dict_copy_ok[OF d])
  have p1: "dict_pop ?n ''trigger_mask'' s1 = (Inr a_trig, s2)"
    using dict_pop_ok[of s1 ?n kv "''trigger_mask''" a_trig] keys
    by (simp add: s1_def s2_def lookup_heap)
  have p2: "dict_pop ?n ''predict_mask'' s2 = (Inr a_pm, s3)"
    using dict_pop_ok[of s2 ?n ?kv1 "''predict_mask''" a_pm] keys
    by (simp add: s2_def s3_def lookup_heap delete_conv)
  have p3: "dict_pop ?n ''input_ids'' s3 = (Inr a_ids, s4)"
    using dict_pop_ok[of s3 ?n ?kv2 "''input_ids''" a_ids] keys
    by (simp add: s3_def s4_def lookup_heap delete_conv)
  have g: "get_long a_ids s4 = (Inr ids, s4)"
    using a_ids_n h_ids by (intro get_ok) (simp add: s4_def lookup_heap nth_append)
  have al: "alloc (EmbT ?E0) s4 = (Inr (Suc ?n), s5)"
    by (simp add: alloc_def s4_def s5_def)
  have "forward_w_triggers m d labels s =
     andthen (index_put_mask (Suc ?n) a_trig (concat (replicate (length ids) (relation_embeds m))))
       (\<lambda>_. andthen (dict_setitem ?n ''inputs_embeds'' (Suc ?n)) (\<lambda>_. call_model m ?n labels)) s5"
    unfolding forward_w_triggers_def
    by (simp add: andthen_def[of "dict_copy d"] andthen_def[of "dict_pop ?n ''trigger_mask''"]
        andthen_def[of "dict_pop ?n ''predict_mask''"] andthen_def[of "dict_pop ?n ''input_ids''"]
        andthen_def[of "get_long a_ids"] andthen_def[of "alloc (EmbT ?E0)"] c1 p1 p2 p3 g al)
  then show ?thesis by (simp add: s5_def)
qed

lemma forward_w_triggers_ok:
  assumes d: "lookup s d = Some (DictO kv)"
    and keys: "map_of kv ''trigger_mask'' = Some a_trig" "map_of kv ''predict_mask'' = Some a_pm"
      "map_of kv ''input_ids'' = Some a_ids"
    and nolabels: "map_of kv ''labels'' = None"
    and valid: "\<forall>a \<in> set (map snd kv). a < length (heap s)"
    and ids: "lookup s a_ids = Some (LongT ids)"
    and trig: "lookup s a_trig = Some (BoolT trig)"
    and shape: "map length trig = map length ids"
    and fit: "triggers_fit m ids trig"
  defines "h' \<equiv> heap s @ [DictO (model_dict kv (Suc (length (heap s)))),
                           EmbT (inputs_embeds_of m ids trig)]"
  defines "kw \<equiv> map (\<lambda>(k, a). (k, h' ! a)) (model_dict kv (Suc (length (heap s))))"
  shows "forward_w_triggers m d labels s =
           (Inr (forward m kw labels), s\<lparr>heap := h', calls := calls s @ [kw]\<rparr>)"
proof -
  let ?n = "length (heap s)"
  let ?kv3 = "AList.delete ''input_ids'' (AList.delete ''predict_mask''
     (AList.delete ''trigger_mask'' kv))"
  let ?E0 = "map (map (embeds m)) ids"
  let ?vals = "concat (replicate (length ids) (relation_embeds m))"
  define s5 where "s5 = s\<lparr>heap := heap s @ [DictO ?kv3, EmbT ?E0]\<rparr>"
  define s6 where "s6 = s\<lparr>heap := heap s @ [DictO ?kv3, EmbT (inputs_embeds_of m ids trig)]\<rparr>"
  define s7 where "s7 = s\<lparr>heap := h'\<rparr>"
  have a_trig_n: "a_trig < ?n" and h_trig: "heap s ! a_trig = BoolT trig"
    using trig by (auto simp: lookup_heap)
  have lv: "length ?vals = count_true trig \<or> length ?vals = 1"
    using fit by (auto simp: triggers_fit_def length_concat_replicate)
  have ip: "index_put_mask (Suc ?n) a_trig ?vals s5 = (Inr (), s6)"
    using index_put_mask_ok[of s5 "Suc ?n" ?E0 a_trig trig ?vals] a_trig_n h_trig shape lv
    by (simp add: s5_def s6_def lookup_heap nth_append inputs_embeds_of_def trigger_values_def
        list_update_append comp_def)
  have si: "dict_setitem ?n ''inputs_embeds'' (Suc ?n) s6 = (Inr (), s7)"
    using dict_setitem_ok[of s6 ?n ?kv3 "''inputs_embeds''" "Suc ?n"]
    by (simp add: s6_def s7_def h'_def lookup_heap model_dict_def)
  have nl: "map_of (model_dict kv (Suc ?n)) ''labels'' = None"
    using nolabels by (simp add: model_dict_def update_conv delete_conv)
  have va: "\<forall>a \<in> set (map snd (model_dict kv (Suc ?n))). a < length (heap s7)"
  proof
    fix a assume "a \<in> set (map snd (model_dict kv (Suc ?n)))"
    with snd_model_dict[of kv "Suc ?n"] have "a = Suc ?n \<or> a \<in> set (map snd kv)" by blast
    with valid show "a < length (heap s7)" by (auto simp: s7_def h'_def)
  qed
  have l7: "lookup s7 ?n = Some (DictO (model_dict kv (Suc ?n)))"
    by (simp add: s7_def h'_def lookup_heap)
  have h7: "heap s7 = h'" "calls s7 = calls s"
    "s7\<lparr>calls := calls s @ [kw]\<rparr> = s\<lparr>heap := h', calls := calls s @ [kw]\<rparr>"
    by (simp_all add: s7_def)
  have cm: "call_model m ?n labels s7 =
      (Inr (forward m kw labels), s\<lparr>heap := h', calls := calls s @ [kw]\<rparr>)"
    unfolding call_model_ok[OF l7 nl va] h7(1,2) kw_def[symmetric] h7(3) ..
  show ?thesis
    unfolding forward_w_triggers_prefix[OF d keys ids] s5_def[symmetric]
    by (simp add: andthen_def ip si cm)
qed

text \<open>
  Claim C7, as the code has it. When the trigger mask has the shape of the token ids,
  the number of its true entries differs from batch size times number of trigger
  vectors, and that product is not 1 (a value tensor of one row is broadcast by torch
  to any number of positions), the masked assignment fails with the shape error, and
  the underlying model has not been called.
\<close>

theorem trigger_count_mismatch:
  assumes "lookup s d = Some (DictO kv)"
    and "map_of kv ''trigger_mask'' = Some a_trig" "map_of kv ''predict_mask'' = Some a_pm"
      "map_of kv ''input_ids'' = Some a_ids"
    and "lookup s a_ids = Some (LongT ids)"
    and "lookup s a_trig = Some (BoolT trig)"
    and "map length trig = map length ids"
    and "count_true trig \<noteq> length ids * length (relation_embeds m)"
    and "length ids * length (relation_embeds m) \<noteq> 1"
  shows "fst (forward_w_triggers m d labels s) = Inl ShapeError \<and>
         calls (snd (forward_w_triggers m d labels s)) = calls s"
proof -
  let ?n = "length (heap s)"
  let ?kv3 = "AList.delete ''input_ids'' (AList.delete ''predict_mask''
     (AList.delete ''trigger_mask'' kv))"
  let ?E0 = "map (map (embeds m)) ids"
  let ?vals = "concat (replicate (length ids) (relation_embeds m))"
  define s5 where "s5 = s\<lparr>heap := heap s @ [DictO ?kv3, EmbT ?E0]\<rparr>"
  have a_trig_n: "a_trig < ?n" and h_trig: "heap s ! a_trig = BoolT trig"
    using assms(6) by (auto simp: lookup_heap)
  have ip: "index_put_mask (Suc ?n) a_trig ?vals s5 = (Inl ShapeError, s5)"
    using index_put_mask_mismatch[of s5 "Suc ?n" ?E0 a_trig trig ?vals] a_trig_n h_trig assms(7-9)
    by (simp add: s5_def lookup_heap nth_append length_concat_replicate comp_def)
  have "forward_w_triggers m d labels s = (Inl ShapeError, s5)"
    unfolding forward_w_triggers_prefix[OF assms(1-5)] s5_def[symmetric]
    by (simp add: andthen_def ip)
  then show ?thesis by (simp add: s5_def)
qed

theorem trigger_count_mismatch_witness:
  "fst (forward_w_triggers scenario_model 0 None mismatch_state) = Inl ShapeError \<and>
   calls (snd (forward_w_triggers scenario_model 0 None mismatch_state)) = []"
  using trigger_count_mismatch[of mismatch_state 0
      "[(''input_ids'', 1), (''attention_mask'', 2), (''trigger_mask'', 3), (''predict_mask'', 4)]"
      3 4 1 "[[5, 6, 7], [8, 9, 10]]" "[[True, True, False], [True, False, False]]"
      scenario_model None]
  by (simp add: mismatch_state_def scenario_model_def lookup_def count_true_def)

text \<open>
  The claim as stated fails: with one example and one trigger vector the repeated
  parameter tensor has a single row, which is broadcast to the two trigger positions of
  the mask; the call returns logits and the model's forward pass has run.
\<close>

theorem trigger_count_mismatch_counterexample:
  "count_true [[True, True, False]]
     \<noteq> length [[5, 6, 7 :: int]] * length (relation_embeds scenario_model) \<and>
   fst (forward_w_triggers scenario_model 0 None broadcast_state)
     = Inr [[[0, 1000, 8], [0, 1000, 8], [0, 7, 8]]] \<and>
   length (calls (snd (forward_w_triggers scenario_model 0 None broadcast_state))) = 1"
proof -
  have fit: "triggers_fit scenario_model [[5, 6, 7]] [[True, True, False]]"
    by (simp add: triggers_fit_def scenario_model_def)
  show ?thesis
    using forward_w_triggers_ok[of broadcast_state 0
      "[(''input_ids'', 1), (''attention_mask'', 2), (''trigger_mask'', 3), (''predict_mask'', 4)]"
      3 4 1 "[[5, 6, 7]]" "[[True, True, False]]" scenario_model None, OF _ _ _ _ _ _ _ _ _ fit]
    by (simp add: broadcast_state_def scenario_model_def lookup_def count_true_def
        model_dict_def inputs_embeds_of_def trigger_values_def)
qed

section \<open>Parallel decoding\<close>

lemma forward_w_triggers_eq:
  assumes "lookup s d = Some (DictO kv)"
    and "map_of kv ''trigger_mask'' = Some a_trig" "map_of kv ''predict_mask'' = Some a_pm"
      "map_of kv ''input_ids'' = Some a_ids"
    and "map_of kv ''labels'' = None"
    and "\<forall>a \<in> set (map snd kv). a < length (heap s)"
    and "lookup s a_ids = Some (LongT ids)"
    and "lookup s a_trig = Some (BoolT trig)"
    and "map length trig = map length ids"
    and "triggers_fit m ids trig"
  shows "forward_w_triggers m d labels s =
           (Inr (forward m (model_kwargs m kv ids trig s) labels),
            s\<lparr>heap := forward_heap m kv ids trig s,
              calls := calls s @ [model_kwargs m kv ids trig s]\<rparr>)"
  unfolding model_kwargs_def forward_heap_def by (rule forward_w_triggers_ok[OF assms])

lemma length_row_put: "length (row_put bs xs vs) = length xs"
  by (induction bs xs vs rule: row_put.induct) auto

lemma map_length_masked_put: "map length (masked_put M X vs) = map length X"
  by (induction M X vs rule: masked_put.induct) (auto simp: length_row_put)

lemma map_length_inputs_embeds_of: "map length (inputs_embeds_of m ids trig) = map length ids"
  by (simp add: inputs_embeds_of_def map_length_masked_put comp_def)

lemma map_of_map_snd: "map_of (map (\<lambda>(k, a). (k, f a)) al) k = map_option f (map_of al k)"
  by (induction al) auto

lemma model_kwargs_embeds:
  "map_of (model_kwargs m kv ids trig s) ''inputs_embeds'' = Some (EmbT (inputs_embeds_of m ids trig))"
  by (simp add: model_kwargs_def map_of_map_snd model_dict_def update_conv forward_heap_def nth_append)

lemma model_shaped_logits:
  assumes "model_shaped m" "map length X = map length ids"
  shows "logits_shaped X (forward m (model_kwargs m kv ids trig s) labels)"
proof -
  have "logits_shaped (inputs_embeds_of m ids trig) (forward m (model_kwargs m kv ids trig s) labels)"
    using assms(1) model_kwargs_embeds unfolding model_shaped_def by blast
  then show ?thesis
    using assms(2) by (simp add: logits_shaped_def map_length_inputs_embeds_of)
qed

lemma length_row_select:
  "length bs = length ys \<Longrightarrow> length (row_select bs ys) = length (filter id bs)"
  by (induction bs ys rule: list_induct2) (auto simp: row_select_def)

lemma row_put_select:
  "length xs = length bs \<Longrightarrow> length ys = length bs \<Longrightarrow>
   row_put bs xs (row_select bs ys) = map2 (\<lambda>b (x, y). if b then y else x) bs (zip xs ys)"
proof (induction bs arbitrary: xs ys)
  case Nil
  then show ?case by simp
next
  case (Cons b bs)
  then obtain x xs' y ys' where "xs = x # xs'" "ys = y # ys'"
    by (metis length_Suc_conv)
  with Cons show ?case by (cases b) (simp_all add: row_select_def)
qed

lemma masked_put_select:
  "map length X = map length M \<Longrightarrow> map length Y = map length M \<Longrightarrow>
   masked_put M X (masked_select M Y)
     = map2 (\<lambda>bs (xs, ys). map2 (\<lambda>b (x, y). if b then y else x) bs (zip xs ys)) M (zip X Y)"
proof (induction M arbitrary: X Y)
  case Nil
  then show ?case by simp
next
  case (Cons bs M)
  then obtain xs X' ys Y' where eq: "X = xs # X'" "Y = ys # Y'"
    by (metis length_Suc_conv length_map)
  with Cons.prems have len: "length xs = length bs" "length ys = length bs"
    and rest: "map length X' = map length M" "map length Y' = map length M"
    by simp_all
  have "masked_select (bs # M) Y = row_select bs ys @ masked_select M Y'"
    by (simp add: masked_select_def eq)
  moreover have "length (row_select bs ys) = length (filter id bs)"
    using len by (simp add: length_row_select)
  ultimately show ?case
    using Cons.IH[OF rest] len by (simp add: eq row_put_select)
qed

lemma parallel_output_eq:
  assumes "map length ids = map length pm" "map length logits = map length pm"
  shows "masked_put pm (map (map (\<lambda>_. - 100)) ids)
           (masked_select pm (map (map (\<lambda>v. int (argmax v))) logits))
         = parallel_output pm logits"
proof -
  have "masked_put pm (map (map (\<lambda>_. - 100)) ids)
           (masked_select pm (map (map (\<lambda>v. int (argmax v))) logits))
    = map2 (\<lambda>bs (xs, ys). map2 (\<lambda>b (x, y). if b then y else x) bs (zip xs ys)) pm
        (zip (map (map (\<lambda>_. - 100)) ids) (map (map (\<lambda>v. int (argmax v))) logits))"
    using assms by (intro masked_put_select) (simp_all add: comp_def)
  also have "\<dots> = parallel_output pm logits"
    unfolding parallel_output_def using assms
  proof (induction pm arbitrary: ids logits)
    case Nil
    then show ?case by simp
  next
    case (Cons bs M)
    then obtain xs X' ys Y' where eq: "ids = xs # X'" "logits = ys # Y'"
      by (metis length_Suc_conv length_map)
    have row: "length xs = length bs \<Longrightarrow> length ys = length bs \<Longrightarrow>
      map2 (\<lambda>b (x, y). if b then y else x) bs (zip (map (\<lambda>_. - 100) xs) (map (\<lambda>v. int (argmax v)) ys))
        = map2 (\<lambda>b v. if b then int (argmax v) else - 100) bs ys"
      by (rule nth_equalityI) auto
    from Cons.prems eq have "length xs = length bs" "length ys = length bs"
      "map length X' = map length M" "map length Y' = map length M" by simp_all
    with Cons.IH[of X' Y'] row show ?case by (simp add: eq)
  qed
  finally show ?thesis .
qed

section \<open>The parallel strategy on a bundle\<close>

lemma bundle_forward:
  assumes "bundle_at s d kv a_ids a_trig a_pm ids trig pm" "triggers_fit m ids trig"
  shows "forward_w_triggers m d labels s =
           (Inr (forward m (model_kwargs m kv ids trig s) labels),
            s\<lparr>heap := forward_heap m kv ids trig s,
              calls := calls s @ [model_kwargs m kv ids trig s]\<rparr>)"
proof -
  from assms(1) have h: "lookup s d = Some (DictO kv)"
    "map_of kv ''trigger_mask'' = Some a_trig" "map_of kv ''predict_mask'' = Some a_pm"
    "map_of kv ''input_ids'' = Some a_ids" "map_of kv ''labels'' = None"
    "\<forall>a \<in> set (map snd kv). a < length (heap s)"
    "lookup s a_ids = Some (LongT ids)" "lookup s a_trig = Some (BoolT trig)"
    "map length trig = map length ids"
    by (simp_all add: bundle_at_def)
  show ?thesis by (rule forward_w_triggers_eq[OF h assms(2)])
qed

lemma lookup_forward_heap:
  "lookup s a = Some v \<Longrightarrow>
   lookup (s\<lparr>heap := forward_heap m kv ids trig s, calls := c\<rparr>) a = Some v"
  by (auto simp: lookup_heap forward_heap_def nth_append)

lemma decode_parallel_ok:
  assumes b: "bundle_at s d kv a_ids a_trig a_pm ids trig pm"
    and fit: "triggers_fit m ids trig"
    and shaped: "model_shaped m"
  shows "decode m d ''parallel'' s =
     (Inr (parallel_output pm (forward m (model_kwargs m kv ids trig s) None)),
      s\<lparr>heap := forward_heap m kv ids trig s,
        calls := calls s @ [model_kwargs m kv ids trig s]\<rparr>)"
proof -
  let ?kw = "model_kwargs m kv ids trig s"
  let ?s' = "s\<lparr>heap := forward_heap m kv ids trig s, calls := calls s @ [?kw]\<rparr>"
  let ?logits = "forward m ?kw None"
  let ?out = "map (map (\<lambda>_. - 100)) ids :: int list list"
  from b have d: "lookup s d = Some (DictO kv)"
    and k: "map_of kv ''input_ids'' = Some a_ids" "map_of kv ''predict_mask'' = Some a_pm"
    and i: "lookup s a_ids = Some (LongT ids)" and p: "lookup s a_pm = Some (BoolT pm)"
    and sh: "map length pm = map length ids"
    by (simp_all add: bundle_at_def)
  have g1: "dict_getitem d ''input_ids'' s = (Inr a_ids, s)"
    by (rule dict_getitem_ok[OF d k(1)])
  have g2: "get_long a_ids s = (Inr ids, s)" by (rule get_ok(2)[OF i])
  have g3: "dict_getitem d ''predict_mask'' s = (Inr a_pm, s)"
    by (rule dict_getitem_ok[OF d k(2)])
  have f: "forward_w_triggers m d None s = (Inr ?logits, ?s')"
    by (rule bundle_forward[OF b fit])
  have g4: "get_bool a_pm ?s' = (Inr pm, ?s')"
    by (rule get_ok(3)[OF lookup_forward_heap[OF p]])
  have ls: "logits_shaped pm ?logits"
    by (rule model_shaped_logits[OF shaped sh])
  then have ll: "map length ?logits = map length pm" by (simp add: logits_shaped_def)
  have out: "masked_put pm ?out (masked_select pm (map (map (\<lambda>v. int (argmax v))) ?logits))
      = parallel_output pm ?logits"
    by (rule parallel_output_eq[OF sh[symmetric] ll])
  have par: "decode_parallel m d ?out s = (Inr (parallel_output pm ?logits), ?s')"
    unfolding decode_parallel_def
    by (simp add: andthen_def g3 f g4 ls sh comp_def out[unfolded comp_def] ok_def Let_def)
  show ?thesis
    unfolding decode_def by (simp add: andthen_def g1 g2 par Let_def)
qed

lemma model_shaped_scenario: "model_shaped scenario_model"
  by (auto simp: model_shaped_def scenario_model_def logits_shaped_def)

text \<open>
  Claim C5. On a well-formed bundle whose trigger mask fits the trigger parameters, with
  a model that returns logits of the shape of its input, \<open>decode\<close> with the parallel
  strategy returns the buffer that holds the vocabulary argmax at every predict position
  and the sentinel elsewhere; the log of forward passes has grown by exactly one call;
  every object allocated at entry, the predict mask and the token ids among them, is
  unchanged.
\<close>

theorem decode_parallel_once:
  assumes "bundle_at s d kv a_ids a_trig a_pm ids trig pm"
    and "triggers_fit m ids trig"
    and "model_shaped m"
  shows "fst (decode m d ''parallel'' s)
           = Inr (parallel_output pm (forward m (model_kwargs m kv ids trig s) None)) \<and>
         calls (snd (decode m d ''parallel'' s)) = calls s @ [model_kwargs m kv ids trig s] \<and>
         take (length (heap s)) (heap (snd (decode m d ''parallel'' s))) = heap s \<and>
         lookup (snd (decode m d ''parallel'' s)) a_pm = Some (BoolT pm) \<and>
         lookup (snd (decode m d ''parallel'' s)) a_ids = Some (LongT ids)"
proof -
  from assms(1) have "lookup s a_pm = Some (BoolT pm)" "lookup s a_ids = Some (LongT ids)"
    by (simp_all add: bundle_at_def)
  then show ?thesis
    unfolding decode_parallel_ok[OF assms]
    by (simp add: lookup_forward_heap) (simp add: forward_heap_def)
qed

theorem decode_parallel_once_witness:
  "fst (decode scenario_model 0 ''parallel'' scenario_state)
     = Inr [[- 100, - 100, - 100, - 100, 1, - 100], [- 100, - 100, - 100, - 100, 2, - 100]] \<and>
   length (calls (snd (decode scenario_model 0 ''parallel'' scenario_state))) = 1 \<and>
   take (length (heap scenario_state))
     (heap (snd (decode scenario_model 0 ''parallel'' scenario_state))) = heap scenario_state"
proof -
  have b: "bundle_at scenario_state 0
      [(''input_ids'', 1), (''attention_mask'', 2), (''trigger_mask'', 3), (''predict_mask'', 4)]
      1 3 4 [[101, 0, 7, 8, 103, 102], [101, 0, 9, 5, 3, 102]]
      [[False, True, False, False, False, False], [False, True, False, False, False, False]]
      [[False, False, False, False, True, False], [False, False, False, False, True, False]]"
    by (simp add: bundle_at_def scenario_state_def lookup_def)
  have f: "triggers_fit scenario_model [[101, 0, 7, 8, 103, 102], [101, 0, 9, 5, 3, 102]]
      [[False, True, False, False, False, False], [False, True, False, False, False, False]]"
    by (simp add: triggers_fit_def scenario_model_def count_true_def)
  have l: "forward scenario_model (model_kwargs scenario_model
      [(''input_ids'', 1), (''attention_mask'', 2), (''trigger_mask'', 3), (''predict_mask'', 4)]
      [[101, 0, 7, 8, 103, 102], [101, 0, 9, 5, 3, 102]]
      [[False, True, False, False, False, False], [False, True, False, False, False, False]]
      scenario_state) None
    = [[[0, 101, 8], [0, 1000, 8], [0, 7, 8], [0, 8, 8], [0, 103, 8], [0, 102, 8]],
       [[0, 101, 8], [0, 1000, 8], [0, 9, 8], [0, 5, 8], [0, 3, 8], [0, 102, 8]]]"
    by (simp add: model_kwargs_def forward_heap_def model_dict_def inputs_embeds_of_def
        trigger_values_def count_true_def scenario_model_def scenario_state_def)
  have c: "calls scenario_state = []" by (simp add: scenario_state_def)
  show ?thesis
    using decode_parallel_once[OF b f model_shaped_scenario, unfolded l c]
    by (simp add: parallel_output_def argmax_def)
qed

section \<open>Decoding with no predict position\<close>

lemma count_true_zero: "count_true M = 0 \<longleftrightarrow> (\<forall>row \<in> set M. \<forall>b \<in> set row. \<not> b)"
  by (induction M) (auto simp: count_true_def filter_empty_conv)

lemma map2_all_false:
  "length bs = length ys \<Longrightarrow> length ys = length xs \<Longrightarrow> \<forall>b \<in> set bs. \<not> b \<Longrightarrow>
   map2 (\<lambda>b v. if b then f v else c) bs ys = map (\<lambda>_. c) xs"
  by (induction bs ys xs rule: list_induct3) auto

lemma parallel_output_zero:
  assumes "count_true pm = 0" "map length logits = map length pm" "map length pm = map length ids"
  shows "parallel_output pm logits = map (map (\<lambda>_. - 100)) ids"
  using assms
proof (induction pm arbitrary: logits ids)
  case Nil
  then show ?case by (simp add: parallel_output_def)
next
  case (Cons bs M)
  then obtain ys Y' xs X' where eq: "logits = ys # Y'" "ids = xs # X'"
    by (metis length_Suc_conv length_map)
  from Cons.prems(1) have z: "\<forall>b \<in> set bs. \<not> b" "count_true M = 0"
    by (auto simp: count_true_zero)
  from Cons.prems eq have len: "length ys = length bs" "length bs = length xs"
    "map length Y' = map length M" "map length M = map length X'" by simp_all
  have row: "map2 (\<lambda>b v. if b then int (argmax v) else - 100) bs ys = map (\<lambda>_. - 100) xs"
    using z(1) len(1,2) by (intro map2_all_false) simp_all
  show ?case
    using Cons.IH[OF z(2) len(3,4)] row by (simp add: parallel_output_def eq)
qed

lemma decode_sequential_zero:
  assumes b: "bundle_at s d kv a_ids a_trig a_pm ids trig pm" and z: "count_true pm = 0"
  shows "decode m d ''monotonic'' s = (Inr (map (map (\<lambda>_. - 100)) ids), s)"
    and "decode m d ''iterative'' s = (Inr (map (map (\<lambda>_. - 100)) ids), s)"
proof -
  from b have d: "lookup s d = Some (DictO kv)"
    and k: "map_of kv ''input_ids'' = Some a_ids" "map_of kv ''predict_mask'' = Some a_pm"
    and i: "lookup s a_ids = Some (LongT ids)" and p: "lookup s a_pm = Some (BoolT pm)"
    by (simp_all add: bundle_at_def)
  have g1: "dict_getitem d ''input_ids'' s = (Inr a_ids, s)"
    by (rule dict_getitem_ok[OF d k(1)])
  have g2: "get_long a_ids s = (Inr ids, s)" by (rule get_ok(2)[OF i])
  have g3: "dict_getitem d ''predict_mask'' s = (Inr a_pm, s)"
    by (rule dict_getitem_ok[OF d k(2)])
  have g4: "get_bool a_pm s = (Inr pm, s)" by (rule get_ok(3)[OF p])
  show "decode m d ''monotonic'' s = (Inr (map (map (\<lambda>_. - 100)) ids), s)"
    unfolding decode_def decode_monotonic_def
    by (simp add: andthen_def g1 g2 g3 g4 z ok_def Let_def)
  show "decode m d ''iterative'' s = (Inr (map (map (\<lambda>_. - 100)) ids), s)"
    unfolding decode_def decode_iterative_def
    by (simp add: andthen_def g1 g2 g3 g4 z ok_def Let_def)
qed

text \<open>
  Claim C8. On a well-formed bundle whose predict mask has no true entry, \<open>decode\<close>
  with the monotonic or the iterative strategy returns the all-sentinel buffer and the
  state it was called in (no iteration, no forward pass, nothing written); with the
  parallel strategy (trigger mask fitting, logits of the shape of the input) it returns
  the all-sentinel buffer after exactly one forward pass, and the token ids, the predict
  mask and every other object allocated at entry are unchanged.
\<close>

theorem decode_no_predict_positions:
  assumes "bundle_at s d kv a_ids a_trig a_pm ids trig pm"
    and "count_true pm = 0"
  shows "decode m d ''monotonic'' s = (Inr (map (map (\<lambda>_. - 100)) ids), s) \<and>
         decode m d ''iterative'' s = (Inr (map (map (\<lambda>_. - 100)) ids), s) \<and>
         (triggers_fit m ids trig \<and> model_shaped m \<longrightarrow>
            fst (decode m d ''parallel'' s) = Inr (map (map (\<lambda>_. - 100)) ids) \<and>
            length (calls (snd (decode m d ''parallel'' s))) = length (calls s) + 1 \<and>
            take (length (heap s)) (heap (snd (decode m d ''parallel'' s))) = heap s)"
proof (intro conjI impI)
  show "decode m d ''monotonic'' s = (Inr (map (map (\<lambda>_. - 100)) ids), s)"
    by (rule decode_sequential_zero(1)[OF assms])
  show "decode m d ''iterative'' s = (Inr (map (map (\<lambda>_. - 100)) ids), s)"
    by (rule decode_sequential_zero(2)[OF assms])
next
  assume h: "triggers_fit m ids trig \<and> model_shaped m"
  then have fit: "triggers_fit m ids trig" and sh: "model_shaped m" by simp_all
  from assms(1) have len: "map length pm = map length ids" by (simp add: bundle_at_def)
  have "logits_shaped pm (forward m (model_kwargs m kv ids trig s) None)"
    by (rule model_shaped_logits[OF sh len])
  then have ll: "map length (forward m (model_kwargs m kv ids trig s) None) = map length pm"
    by (simp add: logits_shaped_def)
  show "fst (decode m d ''parallel'' s) = Inr (map (map (\<lambda>_. - 100)) ids)"
    unfolding decode_parallel_ok[OF assms(1) fit sh]
    by (simp add: parallel_output_zero[OF assms(2) ll len])
  show "length (calls (snd (decode m d ''parallel'' s))) = length (calls s) + 1"
    unfolding decode_parallel_ok[OF assms(1) fit sh] by simp
  show "take (length (heap s)) (heap (snd (decode m d ''parallel'' s))) = heap s"
    unfolding decode_parallel_ok[OF assms(1) fit sh] by (simp add: forward_heap_def)
qed

theorem decode_no_predict_positions_witness:
  "decode scenario_model 0 ''monotonic'' no_predict_state
     = (Inr [[- 100, - 100, - 100], [- 100, - 100, - 100]], no_predict_state) \<and>
   decode scenario_model 0 ''iterative'' no_predict_state
     = (Inr [[- 100, - 100, - 100], [- 100, - 100, - 100]], no_predict_state) \<and>
   fst (decode scenario_model 0 ''parallel'' no_predict_state)
     = Inr [[- 100, - 100, - 100], [- 100, - 100, - 100]] \<and>
   length (calls (snd (decode scenario_model 0 ''parallel'' no_predict_state))) = 1 \<and>
   take (length (heap no_predict_state))
     (heap (snd (decode scenario_model 0 ''parallel'' no_predict_state))) = heap no_predict_state"
proof -
  have b: "bundle_at no_predict_state 0
      [(''input_ids'', 1), (''attention_mask'', 2), (''trigger_mask'', 3), (''predict_mask'', 4)]
      1 3 4 [[101, 0, 7], [101, 0, 9]]
      [[False, True, False], [False, True, False]]
      [[False, False, False], [False, False, False]]"
    by (simp add: bundle_at_def no_predict_state_def lookup_def)
  have z: "count_true [[False, False, False], [False, False, False]] = 0"
    by (simp add: count_true_def)
  have f: "triggers_fit scenario_model [[101, 0, 7], [101, 0, 9]]
      [[False, True, False], [False, True, False]]"
    by (simp add: triggers_fit_def scenario_model_def count_true_def)
  have c: "calls no_predict_state = []" by (simp add: no_predict_state_def)
  show ?thesis
    using decode_no_predict_positions[OF b z, of scenario_model] f model_shaped_scenario
    by (simp add: c)
qed

section \<open>Row permutations of a bundle\<close>

lemma delete_map_snd:
  "AList.delete k (map (\<lambda>(k, a). (k, f a)) al) = map (\<lambda>(k, a). (k, f a)) (AList.delete k al)"
  by (induction al) auto

lemma update_map_snd:
  "AList.update k (f v) (map (\<lambda>(k, a). (k, f a)) al) = map (\<lambda>(k, a). (k, f a)) (AList.update k v al)"
  by (induction al) auto

lemma map_snd_cong:
  "\<forall>a \<in> set (map snd al). f a = g a \<Longrightarrow>
   map (\<lambda>(k, a). (k, f a)) al = map (\<lambda>(k, a). (k, g a)) al"
  by (induction al) auto

text \<open>The keyword arguments of the model call, from the values of the caller's bundle.\<close>

lemma model_kwargs_values:
  assumes "\<forall>a \<in> set (map snd kv). a < length (heap s)"
  shows "model_kwargs m kv ids trig s =
     AList.update ''inputs_embeds'' (EmbT (inputs_embeds_of m ids trig))
       (AList.delete ''input_ids'' (AList.delete ''predict_mask''
          (AList.delete ''trigger_mask'' (bundle_values s kv))))"
proof -
  let ?h = "forward_heap m kv ids trig s"
  let ?kv3 = "AList.delete ''input_ids'' (AList.delete ''predict_mask''
          (AList.delete ''trigger_mask'' kv))"
  have e: "?h ! Suc (length (heap s)) = EmbT (inputs_embeds_of m ids trig)"
    by (simp add: forward_heap_def nth_append)
  have "set (map snd ?kv3) \<subseteq> set (map snd kv)"
    using snd_delete_subset[of "''input_ids''"] snd_delete_subset[of "''predict_mask''"]
      snd_delete_subset[of "''trigger_mask''"] by (meson order_trans)
  with assms have "\<forall>a \<in> set (map snd ?kv3). a < length (heap s)"
    by blast
  then have "\<forall>a \<in> set (map snd ?kv3). ?h ! a = heap s ! a"
    by (simp add: forward_heap_def nth_append)
  then have c: "map (\<lambda>(k, a). (k, ?h ! a)) ?kv3 = map (\<lambda>(k, a). (k, heap s ! a)) ?kv3"
    by (rule map_snd_cong)
  have "model_kwargs m kv ids trig s
      = AList.update ''inputs_embeds'' (?h ! Suc (length (heap s))) (map (\<lambda>(k, a). (k, ?h ! a)) ?kv3)"
    unfolding model_kwargs_def model_dict_def by (rule update_map_snd[symmetric])
  also have "\<dots> = AList.update ''inputs_embeds'' (EmbT (inputs_embeds_of m ids trig))
      (map (\<lambda>(k, a). (k, heap s ! a)) ?kv3)"
    unfolding e c ..
  finally show ?thesis
    by (simp add: bundle_values_def delete_map_snd)
qed

lemma permute_kwargs_delete:
  "AList.delete k (permute_kwargs p kw) = permute_kwargs p (AList.delete k kw)"
  unfolding permute_kwargs_def by (rule delete_map_snd)

lemma permute_kwargs_update:
  "AList.update k (permute_obj p v) (permute_kwargs p kw) = permute_kwargs p (AList.update k v kw)"
  unfolding permute_kwargs_def by (rule update_map_snd)

subsection \<open>Trigger substitution row by row\<close>

lemma masked_put_rows:
  assumes "length X = length M" "\<forall>row \<in> set M. length (filter id row) = length rel"
  shows "masked_put M X (concat (replicate (length M) rel)) = map2 (\<lambda>bs xs. row_put bs xs rel) M X"
  using assms
proof (induction M arbitrary: X)
  case Nil
  then show ?case by simp
next
  case (Cons bs M)
  then obtain xs X' where eq: "X = xs # X'" by (cases X) auto
  with Cons.prems have l: "length X' = length M"
    and r: "\<forall>row \<in> set M. length (filter id row) = length rel"
    and b: "length (filter id bs) = length rel" by (simp_all add: id_def)
  show ?case unfolding eq using Cons.IH[OF l r] b by simp
qed

lemma count_true_rows:
  "\<forall>row \<in> set M. length (filter id row) = n \<Longrightarrow> count_true M = length M * n"
  by (induction M) (auto simp: count_true_def)

lemma inputs_embeds_of_rows:
  assumes "length trig = length ids"
    and "\<forall>row \<in> set trig. length (filter id row) = length (relation_embeds m)"
  shows "inputs_embeds_of m ids trig
     = map2 (\<lambda>bs xs. row_put bs (map (embeds m) xs) (relation_embeds m)) trig ids"
proof -
  have c: "count_true trig = length ids * length (relation_embeds m)"
    using count_true_rows[OF assms(2)] assms(1) by simp
  have "inputs_embeds_of m ids trig
      = masked_put trig (map (map (embeds m)) ids) (concat (replicate (length trig) (relation_embeds m)))"
    by (simp add: inputs_embeds_of_def trigger_values_def c length_concat_replicate assms(1))
  also have "\<dots> = map2 (\<lambda>bs xs. row_put bs xs (relation_embeds m)) trig (map (map (embeds m)) ids)"
    using assms by (intro masked_put_rows) simp_all
  also have "\<dots> = map2 (\<lambda>bs xs. row_put bs (map (embeds m) xs) (relation_embeds m)) trig ids"
    by (simp add: zip_map2 case_prod_unfold comp_def)
  finally show ?thesis .
qed

lemma permute_map2:
  assumes "set p \<subseteq> {..<length A}" "length B = length A"
  shows "map2 f (permute_rows p A) (permute_rows p B) = permute_rows p (map2 f A B)"
  using assms by (induction p) (auto simp: permute_rows_def)

lemma set_permute_rows: "set p \<subseteq> {..<length A} \<Longrightarrow> set (permute_rows p A) \<subseteq> set A"
  by (auto simp: permute_rows_def)

section \<open>Parallel decoding commutes with row permutations\<close>

lemma permute_rows_length: "length (permute_rows p X) = length p"
  by (simp add: permute_rows_def)

lemma permute_inputs_embeds_of:
  assumes len: "length trig = length ids"
    and rows: "\<forall>row \<in> set trig. length (filter id row) = length (relation_embeds m)"
    and p: "set p \<subseteq> {..<length ids}"
  shows "inputs_embeds_of m (permute_rows p ids) (permute_rows p trig)
           = permute_rows p (inputs_embeds_of m ids trig)"
proof -
  have p': "set p \<subseteq> {..<length trig}" using p len by simp
  have rows': "\<forall>row \<in> set (permute_rows p trig). length (filter id row) = length (relation_embeds m)"
    using set_permute_rows[OF p'] rows by blast
  have "inputs_embeds_of m (permute_rows p ids) (permute_rows p trig)
      = map2 (\<lambda>bs xs. row_put bs (map (embeds m) xs) (relation_embeds m))
          (permute_rows p trig) (permute_rows p ids)"
    by (rule inputs_embeds_of_rows[OF _ rows']) (simp add: permute_rows_length)
  also have "\<dots> = permute_rows p
      (map2 (\<lambda>bs xs. row_put bs (map (embeds m) xs) (relation_embeds m)) trig ids)"
    by (rule permute_map2[OF p' len[symmetric]])
  also have "\<dots> = permute_rows p (inputs_embeds_of m ids trig)"
    by (simp add: inputs_embeds_of_rows[OF len rows])
  finally show ?thesis .
qed

lemma permute_parallel_output:
  assumes "set p \<subseteq> {..<length pm}" "length logits = length pm"
  shows "parallel_output (permute_rows p pm) (permute_rows p logits)
           = permute_rows p (parallel_output pm logits)"
  unfolding parallel_output_def by (rule permute_map2[OF assms])

lemma triggers_fit_rows:
  assumes "length trig = length ids"
    and "\<forall>row \<in> set trig. length (filter id row) = length (relation_embeds m)"
  shows "triggers_fit m ids trig"
  using count_true_rows[OF assms(2)] assms(1) by (simp add: triggers_fit_def)

text \<open>
  Claim C9, as the code has it: the claim holds for bundles that keep the invariant of
  the data model, and needs it. Take a well-formed bundle in which every example has as
  many trigger positions as there are trigger vectors, a permutation \<open>p\<close> of its rows, and a second
  bundle whose tensors are those of the first with the rows permuted by \<open>p\<close>. If the
  model returns logits of the shape of its input and its forward pass commutes with
  selecting rows of its tensor arguments (as a forward pass that works row by row does),
  then parallel decoding of the permuted bundle returns the rows of the output of
  parallel decoding of the original bundle, permuted by \<open>p\<close>.
\<close>

theorem decode_parallel_permutation:
  assumes b1: "bundle_at s1 d1 kv1 i1 t1 p1 ids trig pm"
    and b2: "bundle_at s2 d2 kv2 i2 t2 p2 (permute_rows p ids) (permute_rows p trig)
               (permute_rows p pm)"
    and rel: "bundle_values s2 kv2 = permute_kwargs p (bundle_values s1 kv1)"
    and perm: "distinct p" "set p = {..<length ids}"
    and rows: "\<forall>row \<in> set trig. length (filter id row) = length (relation_embeds m)"
    and shaped: "model_shaped m"
    and equiv: "row_equivariant m"
  shows "fst (decode m d1 ''parallel'' s1)
           = Inr (parallel_output pm (forward m (model_kwargs m kv1 ids trig s1) None)) \<and>
         fst (decode m d2 ''parallel'' s2)
           = Inr (permute_rows p
                    (parallel_output pm (forward m (model_kwargs m kv1 ids trig s1) None)))"
proof -
  let ?kw1 = "model_kwargs m kv1 ids trig s1"
  let ?kw2 = "model_kwargs m kv2 (permute_rows p ids) (permute_rows p trig) s2"
  from b1 have len: "length trig = length ids" "length pm = length ids"
    and shp: "map length pm = map length ids"
    and v1: "\<forall>a \<in> set (map snd kv1). a < length (heap s1)"
    by (auto simp: bundle_at_def dest: arg_cong[where f = length])
  from b2 have v2: "\<forall>a \<in> set (map snd kv2). a < length (heap s2)"
    by (simp add: bundle_at_def)
  have sub: "set p \<subseteq> {..<length ids}" using perm(2) by simp
  have fit1: "triggers_fit m ids trig" by (rule triggers_fit_rows[OF len(1) rows])
  have rows2: "\<forall>row \<in> set (permute_rows p trig).
      length (filter id row) = length (relation_embeds m)"
    using set_permute_rows[of p trig] sub len(1) rows by auto
  have fit2: "triggers_fit m (permute_rows p ids) (permute_rows p trig)"
    by (rule triggers_fit_rows[OF _ rows2]) (simp add: permute_rows_length)
  have E: "inputs_embeds_of m (permute_rows p ids) (permute_rows p trig)
      = permute_rows p (inputs_embeds_of m ids trig)"
    by (rule permute_inputs_embeds_of[OF len(1) rows sub])
  have kw: "?kw2 = permute_kwargs p ?kw1"
    unfolding model_kwargs_values[OF v1] model_kwargs_values[OF v2] rel E
    by (simp add: permute_kwargs_delete permute_kwargs_update[symmetric])
  have emb: "map_of ?kw1 ''inputs_embeds'' = Some (EmbT (inputs_embeds_of m ids trig))"
    by (rule model_kwargs_embeds)
  have lE: "length (inputs_embeds_of m ids trig) = length ids"
    using map_length_inputs_embeds_of[of m ids trig] by (auto dest: arg_cong[where f = length])
  have logits: "forward m ?kw2 None = permute_rows p (forward m ?kw1 None)"
    unfolding kw using equiv emb sub lE unfolding row_equivariant_def by auto
  have "logits_shaped pm (forward m ?kw1 None)"
    by (rule model_shaped_logits[OF shaped shp])
  then have ll: "length (forward m ?kw1 None) = length pm"
    by (auto simp: logits_shaped_def dest: arg_cong[where f = length])
  have out: "parallel_output (permute_rows p pm) (forward m ?kw2 None)
      = permute_rows p (parallel_output pm (forward m ?kw1 None))"
    unfolding logits using sub len(2) ll by (intro permute_parallel_output) simp_all
  show ?thesis
    unfolding decode_parallel_ok[OF b1 fit1 shaped] decode_parallel_ok[OF b2 fit2 shaped]
    by (simp add: out)
qed

lemma map_of_permute_kwargs:
  "map_of (permute_kwargs p kw) k = map_option (permute_obj p) (map_of kw k)"
  unfolding permute_kwargs_def by (rule map_of_map_snd)

lemma row_equivariant_scenario: "row_equivariant scenario_model"
  unfolding row_equivariant_def
proof (intro allI impI)
  fix kw :: "int kwargs" and p E
  assume e: "map_of kw ''inputs_embeds'' = Some (EmbT E)" and p: "set p \<subseteq> {..<length E}"
  have "forward scenario_model (permute_kwargs p kw) None
      = map (map (\<lambda>e. [0, real_of_int e, 8])) (permute_rows p E)"
    by (simp add: scenario_model_def map_of_permute_kwargs e)
  also have "\<dots> = permute_rows p (map (map (\<lambda>e. [0, real_of_int e, 8])) E)"
    using p by (induction p) (auto simp: permute_rows_def)
  also have "\<dots> = permute_rows p (forward scenario_model kw None)"
    by (simp add: scenario_model_def e)
  finally show "forward scenario_model (permute_kwargs p kw) None
      = permute_rows p (forward scenario_model kw None)" .
qed

lemma scenario_bundle:
  "bundle_at scenario_state 0
      [(''input_ids'', 1), (''attention_mask'', 2), (''trigger_mask'', 3), (''predict_mask'', 4)]
      1 3 4 [[101, 0, 7, 8, 103, 102], [101, 0, 9, 5, 3, 102]]
      [[False, True, False, False, False, False], [False, True, False, False, False, False]]
      [[False, False, False, False, True, False], [False, False, False, False, True, False]]"
  by (simp add: bundle_at_def scenario_state_def lookup_def)

lemma scenario_logits:
  "forward scenario_model (model_kwargs scenario_model
      [(''input_ids'', 1), (''attention_mask'', 2), (''trigger_mask'', 3), (''predict_mask'', 4)]
      [[101, 0, 7, 8, 103, 102], [101, 0, 9, 5, 3, 102]]
      [[False, True, False, False, False, False], [False, True, False, False, False, False]]
      scenario_state) None
    = [[[0, 101, 8], [0, 1000, 8], [0, 7, 8], [0, 8, 8], [0, 103, 8], [0, 102, 8]],
       [[0, 101, 8], [0, 1000, 8], [0, 9, 8], [0, 5, 8], [0, 3, 8], [0, 102, 8]]]"
  by (simp add: model_kwargs_def forward_heap_def model_dict_def inputs_embeds_of_def
      trigger_values_def count_true_def scenario_model_def scenario_state_def)

theorem decode_parallel_permutation_witness:
  "fst (decode scenario_model 0 ''parallel'' scenario_state)
     = Inr [[- 100, - 100, - 100, - 100, 1, - 100], [- 100, - 100, - 100, - 100, 2, - 100]] \<and>
   fst (decode scenario_model 0 ''parallel'' swapped_state)
     = Inr [[- 100, - 100, - 100, - 100, 2, - 100], [- 100, - 100, - 100, - 100, 1, - 100]]"
proof -
  have b2: "bundle_at swapped_state 0
      [(''input_ids'', 1), (''attention_mask'', 2), (''trigger_mask'', 3), (''predict_mask'', 4)]
      1 3 4
      (permute_rows [1, 0] [[101, 0, 7, 8, 103, 102], [101, 0, 9, 5, 3, 102]])
      (permute_rows [1, 0]
         [[False, True, False, False, False, False], [False, True, False, False, False, False]])
      (permute_rows [1, 0]
         [[False, False, False, False, True, False], [False, False, False, False, True, False]])"
    by (simp add: bundle_at_def swapped_state_def lookup_def permute_rows_def)
  have rel: "bundle_values swapped_state
      [(''input_ids'', 1), (''attention_mask'', 2), (''trigger_mask'', 3), (''predict_mask'', 4)]
    = permute_kwargs [1, 0] (bundle_values scenario_state
      [(''input_ids'', 1), (''attention_mask'', 2), (''trigger_mask'', 3), (''predict_mask'', 4)])"
    by (simp add: bundle_values_def permute_kwargs_def swapped_state_def scenario_state_def
        permute_rows_def)
  have perm: "distinct [1, 0 :: nat]"
    "set [1, 0] = {..<length [[101, 0, 7, 8, 103, 102], [101, 0, 9, 5, 3, 102 :: int]]}"
    by auto
  have rows: "\<forall>row \<in> set [[False, True, False, False, False, False],
      [False, True, False, False, False, False]].
      length (filter id row) = length (relation_embeds scenario_model)"
    by (simp add: scenario_model_def)
  show ?thesis
    using decode_parallel_permutation[OF scenario_bundle b2 rel perm rows model_shaped_scenario
        row_equivariant_scenario, unfolded scenario_logits]
    by (simp add: parallel_output_def argmax_def permute_rows_def)
qed

section \<open>One iteration of the monotonic strategy\<close>

lemma bundle_written:
  assumes b: "bundle_at s d kv a_ids a_trig a_pm ids trig pm"
    and i: "map length ids' = map length ids"
    and p: "map length pm' = map length pm"
  shows "bundle_at (written_state m kv ids trig a_ids ids' a_pm pm' s) d kv a_ids a_trig a_pm
           ids' trig pm'"
proof -
  let ?n = "length (heap s)"
  from b have d: "d < ?n" "heap s ! d = DictO kv"
    and ai: "a_ids < ?n" "heap s ! a_ids = LongT ids"
    and at: "a_trig < ?n" "heap s ! a_trig = BoolT trig"
    and ap: "a_pm < ?n" "heap s ! a_pm = BoolT pm"
    and ne: "a_trig \<noteq> a_pm"
    and rest: "map_of kv ''input_ids'' = Some a_ids" "map_of kv ''trigger_mask'' = Some a_trig"
      "map_of kv ''predict_mask'' = Some a_pm" "map_of kv ''labels'' = None"
      "\<forall>a \<in> set (map snd kv). a < ?n"
      "map length trig = map length ids" "map length pm = map length ids"
    by (simp_all add: bundle_at_def lookup_heap)
  have ne': "d \<noteq> a_ids" "d \<noteq> a_pm" "a_trig \<noteq> a_ids" "a_ids \<noteq> a_pm"
    using d ai at ap by auto
  have len: "length (heap (written_state m kv ids trig a_ids ids' a_pm pm' s)) = ?n + 2"
    by (simp add: written_state_def forward_heap_def)
  have h: "\<And>a. a < ?n \<Longrightarrow> a \<noteq> a_ids \<Longrightarrow> a \<noteq> a_pm \<Longrightarrow>
      heap (written_state m kv ids trig a_ids ids' a_pm pm' s) ! a = heap s ! a"
    by (simp add: written_state_def forward_heap_def nth_append)
  have hi: "heap (written_state m kv ids trig a_ids ids' a_pm pm' s) ! a_ids = LongT ids'"
    using ai(1) ne'(4) by (simp add: written_state_def forward_heap_def)
  have hp: "heap (written_state m kv ids trig a_ids ids' a_pm pm' s) ! a_pm = BoolT pm'"
    using ap(1) by (simp add: written_state_def forward_heap_def)
  show ?thesis
    unfolding bundle_at_def lookup_heap len
    using d ai at ap ne ne' rest i p h[of d] h[of a_trig] hi hp by auto
qed



lemma logits_shaped_length: "logits_shaped X logits \<Longrightarrow> length logits = length X"
  by (auto simp: logits_shaped_def dest: arg_cong[where f = length])

lemma monotonic_step_ok:
  assumes b: "bundle_at s d kv a_ids a_trig a_pm ids trig pm"
    and fit: "triggers_fit m ids trig"
    and shaped: "model_shaped m"
    and nz: "nonzero pm = (r, idx) # rest"
    and lo: "map length out = map length ids"
  defines "pred \<equiv> monotonic_pred (forward m (model_kwargs m kv ids trig s) None) idx"
  shows "monotonic_step m d a_pm a_ids out s =
     (Inr (set_col out idx pred),
      written_state m kv ids trig a_ids (set_col ids idx pred) a_pm (clear_col pm idx) s)"
proof -
  let ?kw = "model_kwargs m kv ids trig s"
  let ?s1 = "s\<lparr>heap := forward_heap m kv ids trig s, calls := calls s @ [?kw]\<rparr>"
  let ?logits = "forward m ?kw None"
  from b have i: "lookup s a_ids = Some (LongT ids)" and p: "lookup s a_pm = Some (BoolT pm)"
    and sh: "map length pm = map length ids"
    by (simp_all add: bundle_at_def)
  have f: "forward_w_triggers m d None s = (Inr ?logits, ?s1)"
    by (rule bundle_forward[OF b fit])
  have g1: "get_bool a_pm ?s1 = (Inr pm, ?s1)"
    by (rule get_ok(3)[OF lookup_forward_heap[OF p]])
  have g2: "get_long a_ids ?s1 = (Inr ids, ?s1)"
    by (rule get_ok(2)[OF lookup_forward_heap[OF i]])
  have ls: "logits_shaped pm ?logits"
    by (rule model_shaped_logits[OF shaped sh])
  show ?thesis
    unfolding monotonic_step_def
    by (simp add: andthen_def f g1 g2 nz ls sh lo put_def ok_def Let_def pred_def
        monotonic_pred_def written_state_def)
qed


section \<open>One iteration of the iterative strategy\<close>

lemma iterative_step_ok:
  assumes b: "bundle_at s d kv a_ids a_trig a_pm ids trig pm"
    and fit: "triggers_fit m ids trig"
    and shaped: "model_shaped m"
    and ne: "[] \<notin> set pm"
    and lo: "map length out = map length ids"
  defines "idx \<equiv> iterative_idx pm (forward m (model_kwargs m kv ids trig s) None)"
  defines "pred \<equiv> iterative_pred pm (forward m (model_kwargs m kv ids trig s) None)"
  shows "iterative_step m d a_pm a_ids out s =
     (Inr (set_cols out idx pred),
      written_state m kv ids trig a_ids (set_cols ids idx pred) a_pm (clear_cols pm idx) s)"
proof -
  let ?kw = "model_kwargs m kv ids trig s"
  let ?s1 = "s\<lparr>heap := forward_heap m kv ids trig s, calls := calls s @ [?kw]\<rparr>"
  let ?logits = "forward m ?kw None"
  from b have i: "lookup s a_ids = Some (LongT ids)" and p: "lookup s a_pm = Some (BoolT pm)"
    and sh: "map length pm = map length ids"
    by (simp_all add: bundle_at_def)
  have f: "forward_w_triggers m d None s = (Inr ?logits, ?s1)"
    by (rule bundle_forward[OF b fit])
  have g1: "get_bool a_pm ?s1 = (Inr pm, ?s1)"
    by (rule get_ok(3)[OF lookup_forward_heap[OF p]])
  have g2: "get_long a_ids ?s1 = (Inr ids, ?s1)"
    by (rule get_ok(2)[OF lookup_forward_heap[OF i]])
  have ls: "logits_shaped pm ?logits"
    by (rule model_shaped_logits[OF shaped sh])
  show ?thesis
    unfolding iterative_step_def
    by (simp add: andthen_def f g1 g2 ne ls sh lo put_def ok_def Let_def idx_def pred_def
        iterative_idx_def iterative_pred_def written_state_def)
qed

section \<open>Facts about argmax and single rows\<close>

subsection \<open>argmax\<close>

lemma argmax_less: "xs \<noteq> [] \<Longrightarrow> argmax xs < length xs"
proof -
  assume "xs \<noteq> []"
  then have "Max (set xs) \<in> set xs" by (intro Max_in) simp_all
  then have ne: "takeWhile (\<lambda>x. x \<noteq> Max (set xs)) xs \<noteq> xs" by auto
  have "length (takeWhile (\<lambda>x. x \<noteq> Max (set xs)) xs) \<noteq> length xs"
  proof
    assume "length (takeWhile (\<lambda>x. x \<noteq> Max (set xs)) xs) = length xs"
    with takeWhile_eq_take[of "\<lambda>x. x \<noteq> Max (set xs)" xs]
    have "takeWhile (\<lambda>x. x \<noteq> Max (set xs)) xs = xs" by simp
    with ne show False by contradiction
  qed
  with length_takeWhile_le[of "\<lambda>x. x \<noteq> Max (set xs)" xs] show ?thesis
    unfolding argmax_def by simp
qed

lemma argmax_max: "xs \<noteq> [] \<Longrightarrow> xs ! argmax xs = Max (set xs)"
  using nth_length_takeWhile[of "\<lambda>x. x \<noteq> Max (set xs)" xs] argmax_less[of xs]
  by (simp add: argmax_def)

lemma argmax_ge: "q < length xs \<Longrightarrow> xs ! q \<le> xs ! argmax xs"
proof -
  assume q: "q < length xs"
  then have "xs \<noteq> []" by auto
  then have "xs ! argmax xs = Max (set xs)" by (rule argmax_max)
  moreover have "xs ! q \<le> Max (set xs)" using q by (intro Max_ge) simp_all
  ultimately show ?thesis by simp
qed

subsection \<open>One row\<close>

lemma count_true_single: "count_true [pm] = length (filter id pm)"
  by (simp add: count_true_def)

lemma nonzero_single: "nonzero [pm] = map (\<lambda>c. (0, c)) (filter (\<lambda>c. pm ! c) [0..<length pm])"
  by (simp add: nonzero_def nonzero_row_def)

lemma filter_nth_upt: "length (filter (\<lambda>c. pm ! c) [0..<length pm]) = length (filter id pm)"
proof (induction pm rule: rev_induct)
  case Nil
  then show ?case by simp
next
  case (snoc b pm)
  have "filter (\<lambda>c. (pm @ [b]) ! c) [0..<length pm] = filter (\<lambda>c. pm ! c) [0..<length pm]"
    by (rule filter_cong) (auto simp: nth_append)
  with snoc show ?case by (simp add: nth_append)
qed

lemma nonzero_single_empty: "nonzero [pm] = [] \<longleftrightarrow> length (filter id pm) = 0"
  using filter_nth_upt[of pm] unfolding nonzero_single by (metis length_0_conv map_is_Nil_conv)

lemma nonzero_single_first:
  assumes "nonzero [pm] = (r, idx) # rest"
  shows "idx < length pm \<and> pm ! idx \<and> (\<forall>c < idx. \<not> pm ! c)"
proof -
  from assms obtain cs where f: "filter (\<lambda>c. pm ! c) [0..<length pm] = idx # cs"
    by (auto simp: nonzero_single)
  then have "idx \<in> set (filter (\<lambda>c. pm ! c) [0..<length pm])" by simp
  then have a: "idx < length pm" "pm ! idx" by auto
  have "\<not> pm ! c" if "c < idx" for c
  proof
    assume c: "pm ! c"
    have "sorted (filter (\<lambda>c. pm ! c) [0..<length pm])" by (simp add: sorted_wrt_filter)
    with f have "\<forall>x \<in> set cs. idx \<le> x" by simp
    moreover from c that a(1) have "c \<in> set (filter (\<lambda>c. pm ! c) [0..<length pm])" by simp
    ultimately show False using f that by auto
  qed
  with a show ?thesis by blast
qed

lemma filter_update_false:
  "idx < length pm \<Longrightarrow> pm ! idx \<Longrightarrow>
   Suc (length (filter id (pm[idx := False]))) = length (filter id pm)"
proof (induction pm arbitrary: idx)
  case Nil
  then show ?case by simp
next
  case (Cons b pm)
  then show ?case by (cases idx) auto
qed

lemma set_col_single: "set_col [x] idx [t] = [x[idx := t]]"
  by (simp add: set_col_def)

lemma clear_col_single: "clear_col [pm] idx = [pm[idx := False]]"
  by (simp add: clear_col_def)

lemma set_cols_single: "set_cols [x] [p] [[t]] = [x[p := t]]"
  by (simp add: set_cols_def)

lemma clear_cols_single: "clear_cols [pm] [p] = [pm[p := False]]"
  by (simp add: clear_cols_def)

section \<open>The monotonic loop on a single example\<close>

lemma triggers_fit_batch:
  "length ids' = length ids \<Longrightarrow> triggers_fit m ids' trig = triggers_fit m ids trig"
  by (simp add: triggers_fit_def)

lemma calls_written_state:
  "calls (written_state m kv ids trig a_ids ids' a_pm pm' s) = calls s @ [model_kwargs m kv ids trig s]"
  by (simp add: written_state_def)

lemma monotonic_loop_single:
  assumes "bundle_at s d kv a_ids a_trig a_pm [ids] [trig] [pm]"
    and "triggers_fit m [ids] [trig]"
    and "model_shaped m"
    and "length out = length ids"
    and "length (filter id pm) = n"
  shows "\<exists>out' s'. monotonic_loop m d a_pm a_ids n [out] s = (Inr [out'], s') \<and>
           length out' = length out \<and>
           (\<forall>c < length out. if pm ! c then 0 \<le> out' ! c else out' ! c = out ! c) \<and>
           length (calls s') = length (calls s) + n"
  using assms
proof (induction n arbitrary: s ids pm out)
  case 0
  from "0.prems"(1) have lp: "length pm = length ids" by (simp add: bundle_at_def)
  from "0.prems"(5) have "\<forall>b \<in> set pm. \<not> b" by (simp add: filter_empty_conv id_def)
  then have "\<forall>c < length pm. \<not> pm ! c" using nth_mem by blast
  with lp "0.prems"(4) show ?case by (simp add: ok_def)
next
  case (Suc n)
  note b = Suc.prems(1) and fit = Suc.prems(2) and shaped = Suc.prems(3)
    and lo = Suc.prems(4) and cnt = Suc.prems(5)
  from b have lp: "length pm = length ids"
    by (simp add: bundle_at_def)
  from cnt have "nonzero [pm] \<noteq> []" by (simp add: nonzero_single_empty id_def)
  then obtain r idx rest where nz: "nonzero [pm] = (r, idx) # rest"
    by (cases "nonzero [pm]") auto
  from nonzero_single_first[OF nz] have idx: "idx < length pm" "pm ! idx" by simp_all
  let ?logits = "forward m (model_kwargs m kv [ids] [trig] s) None"
  have "logits_shaped [pm] ?logits"
    using b by (intro model_shaped_logits[OF shaped]) (simp add: bundle_at_def)
  then have "length ?logits = 1" using logits_shaped_length by fastforce
  then obtain l where l: "?logits = [l]" by (cases ?logits) auto
  define t where "t = int (argmax (l ! idx))"
  have t: "0 \<le> t" by (simp add: t_def)
  have pred: "monotonic_pred ?logits idx = [t]" by (simp add: monotonic_pred_def l t_def)
  let ?s1 = "written_state m kv [ids] [trig] a_ids [ids[idx := t]] a_pm [pm[idx := False]] s"
  have step: "monotonic_step m d a_pm a_ids [out] s = (Inr [out[idx := t]], ?s1)"
    using monotonic_step_ok[OF b fit shaped nz, of "[out]"] lo
    by (simp add: pred set_col_single clear_col_single)
  have b1: "bundle_at ?s1 d kv a_ids a_trig a_pm [ids[idx := t]] [trig] [pm[idx := False]]"
    by (rule bundle_written[OF b]) simp_all
  have fit1: "triggers_fit m [ids[idx := t]] [trig]"
    using fit by (simp add: triggers_fit_def)
  have cnt1: "length (filter id (pm[idx := False])) = n"
    using filter_update_false[OF idx] cnt by (simp add: id_def)
  from Suc.IH[OF b1 fit1 shaped _ cnt1, of "out[idx := t]"] lo
  obtain out' s' where
    loop: "monotonic_loop m d a_pm a_ids n [out[idx := t]] ?s1 = (Inr [out'], s')"
    and len: "length out' = length out"
    and vals: "\<forall>c < length out. if pm[idx := False] ! c then 0 \<le> out' ! c
                 else out' ! c = out[idx := t] ! c"
    and cl: "length (calls s') = length (calls ?s1) + n"
    by auto
  have "monotonic_loop m d a_pm a_ids (Suc n) [out] s = (Inr [out'], s')"
    by (simp add: andthen_def step loop)
  moreover have "\<forall>c < length out. if pm ! c then 0 \<le> out' ! c else out' ! c = out ! c"
  proof (intro allI impI)
    fix c assume c: "c < length out"
    show "if pm ! c then 0 \<le> out' ! c else out' ! c = out ! c"
    proof (cases "c = idx")
      case True
      with vals c idx lp lo have "out' ! c = t" by simp
      with True idx t show ?thesis by simp
    next
      case False
      with vals c idx lp lo show ?thesis by (auto split: if_splits)
    qed
  qed
  moreover have "length (calls s') = length (calls s) + Suc n"
    using cl by (simp add: calls_written_state)
  ultimately show ?case using len by blast
qed

section \<open>One iteration of the iterative strategy on a single example\<close>

lemma suppress_single:
  "suppress [pm] [l] = [map2 (\<lambda>b v. if b then v else map (\<lambda>_. - (10 ^ 32)) v) pm l]"
  by (simp add: suppress_def)

lemma single_scores_nth:
  assumes "length l = length pm" "q < length pm" "l ! q \<noteq> []"
  shows "hd (top_scores (suppress [pm] [l])) ! q
           = (if pm ! q then Max (set (l ! q)) else - (10 ^ 32))"
proof -
  have "set (map (\<lambda>_. - (10 ^ 32) :: real) (l ! q)) = {- (10 ^ 32)}"
    using assms(3) by (cases "l ! q") auto
  then show ?thesis
    using assms(1,2) by (simp add: suppress_single top_scores_def)
qed

lemma single_scores_length:
  "length l = length pm \<Longrightarrow> length (hd (top_scores (suppress [pm] [l]))) = length pm"
  by (simp add: suppress_single top_scores_def)

lemma single_preds_nth:
  assumes "length l = length pm" "q < length pm" "pm ! q"
  shows "hd (top_preds (suppress [pm] [l])) ! q = argmax (l ! q)"
  using assms by (simp add: suppress_single top_preds_def)

text \<open>
  With logits above the suppression value and an open position, the position of the
  highest suppressed score is open.
\<close>

lemma single_selected_open:
  assumes len: "length l = length pm"
    and ne: "\<forall>v \<in> set l. v \<noteq> []"
    and above: "\<forall>v \<in> set l. \<forall>x \<in> set v. - (10 ^ 32) < x"
    and op: "q < length pm" "pm ! q"
  shows "pm ! argmax (hd (top_scores (suppress [pm] [l])))"
proof (rule ccontr)
  let ?scores = "hd (top_scores (suppress [pm] [l]))"
  let ?p = "argmax ?scores"
  assume np: "\<not> pm ! ?p"
  have ls: "length ?scores = length pm" by (rule single_scores_length[OF len])
  with op(1) have "?scores \<noteq> []" by auto
  then have p: "?p < length pm" using argmax_less[of ?scores] ls by simp
  have nq: "l ! q \<noteq> []" and np': "l ! ?p \<noteq> []"
    using ne op(1) p len by (simp_all add: nth_mem)
  have "Max (set (l ! q)) \<in> set (l ! q)" using nq by (intro Max_in) simp_all
  moreover have "l ! q \<in> set l" using op(1) len by simp
  ultimately have "- (10 ^ 32) < Max (set (l ! q))" using above by blast
  then have "- (10 ^ 32) < ?scores ! q"
    using single_scores_nth[OF len op(1) nq] op(2) by simp
  moreover have "?scores ! q \<le> ?scores ! ?p" using op(1) ls by (intro argmax_ge) simp
  moreover have "?scores ! ?p = - (10 ^ 32)"
    using single_scores_nth[OF len p np'] np by simp
  ultimately show False by simp
qed

lemma iterative_step_single:
  assumes b: "bundle_at s d kv a_ids a_trig a_pm [ids] [trig] [pm]"
    and fit: "triggers_fit m [ids] [trig]"
    and shaped: "model_shaped m"
    and ne: "pm \<noteq> []"
    and lo: "length out = length ids"
  defines "logits \<equiv> forward m (model_kwargs m kv [ids] [trig] s) None"
  defines "p \<equiv> argmax (hd (top_scores (suppress [pm] logits)))"
  defines "t \<equiv> int (hd (top_preds (suppress [pm] logits)) ! p)"
  shows "iterative_step m d a_pm a_ids [out] s =
     (Inr [out[p := t]],
      written_state m kv [ids] [trig] a_ids [ids[p := t]] a_pm [pm[p := False]] s)"
proof -
  have "logits_shaped [pm] logits"
    unfolding logits_def using b by (intro model_shaped_logits[OF shaped]) (simp add: bundle_at_def)
  then have "length logits = 1" using logits_shaped_length by fastforce
  then obtain l where l: "logits = [l]" by (cases logits) auto
  have idx: "iterative_idx [pm] logits = [p]"
    by (simp add: iterative_idx_def p_def l suppress_single top_scores_def)
  have pred: "iterative_pred [pm] logits = [[t]]"
    unfolding iterative_pred_def idx by (simp add: t_def l suppress_single top_preds_def)
  show ?thesis
    using iterative_step_ok[OF b fit shaped _ , of "[out]"] ne lo
    by (simp add: logits_def[symmetric] idx pred set_cols_single clear_cols_single)
qed

section \<open>The iterative loop on a single example\<close>

lemma iterative_loop_single:
  assumes "bundle_at s d kv a_ids a_trig a_pm [ids] [trig] [pm]"
    and "triggers_fit m [ids] [trig]"
    and "model_shaped m"
    and "logits_above m"
    and "length out = length ids"
    and "length (filter id pm) = n"
  shows "\<exists>out' s'. iterative_loop m d a_pm a_ids n [out] s = (Inr [out'], s') \<and>
           length out' = length out \<and>
           (\<forall>c < length out. if pm ! c then 0 \<le> out' ! c else out' ! c = out ! c) \<and>
           length (calls s') = length (calls s) + n"
  using assms
proof (induction n arbitrary: s ids pm out)
  case 0
  from "0.prems"(1) have lp: "length pm = length ids" by (simp add: bundle_at_def)
  from "0.prems"(6) have "\<forall>b \<in> set pm. \<not> b" by (simp add: filter_empty_conv id_def)
  then have "\<forall>c < length pm. \<not> pm ! c" using nth_mem by blast
  with lp "0.prems"(5) show ?case by (simp add: ok_def)
next
  case (Suc n)
  note b = Suc.prems(1) and fit = Suc.prems(2) and shaped = Suc.prems(3)
    and above = Suc.prems(4) and lo = Suc.prems(5) and cnt = Suc.prems(6)
  from b have lp: "length pm = length ids"
    by (simp add: bundle_at_def)
  from cnt have "filter id pm \<noteq> []" by (auto simp: id_def)
  then obtain q where q: "q < length pm" "pm ! q"
    by (auto simp: filter_empty_conv in_set_conv_nth id_def)
  then have ne: "pm \<noteq> []" by auto
  let ?logits = "forward m (model_kwargs m kv [ids] [trig] s) None"
  have sh: "logits_shaped [pm] ?logits"
    using b by (intro model_shaped_logits[OF shaped]) (simp add: bundle_at_def)
  then have "length ?logits = 1" using logits_shaped_length by fastforce
  then obtain l where l: "?logits = [l]" by (cases ?logits) auto
  from sh have ll: "length l = length pm" and nel: "\<forall>v \<in> set l. v \<noteq> []"
    by (simp_all add: logits_shaped_def l)
  have abl: "\<forall>v \<in> set l. \<forall>x \<in> set v. - (10 ^ 32) < x"
  proof -
    have "l \<in> set ?logits" by (simp add: l)
    with above show ?thesis unfolding logits_above_def by blast
  qed
  define p where "p = argmax (hd (top_scores (suppress [pm] ?logits)))"
  define t where "t = int (hd (top_preds (suppress [pm] ?logits)) ! p)"
  have pp: "pm ! p"
    unfolding p_def l by (rule single_selected_open[OF ll nel abl q])
  have "hd (top_scores (suppress [pm] [l])) \<noteq> []"
    using single_scores_length[OF ll] ne by auto
  then have pl: "p < length pm"
    using argmax_less[of "hd (top_scores (suppress [pm] [l]))"] single_scores_length[OF ll]
    by (simp add: p_def l)
  have t: "0 \<le> t" by (simp add: t_def)
  let ?s1 = "written_state m kv [ids] [trig] a_ids [ids[p := t]] a_pm [pm[p := False]] s"
  have step: "iterative_step m d a_pm a_ids [out] s = (Inr [out[p := t]], ?s1)"
    unfolding p_def t_def by (rule iterative_step_single[OF b fit shaped ne lo])
  have b1: "bundle_at ?s1 d kv a_ids a_trig a_pm [ids[p := t]] [trig] [pm[p := False]]"
    by (rule bundle_written[OF b]) simp_all
  have fit1: "triggers_fit m [ids[p := t]] [trig]"
    using fit by (simp add: triggers_fit_def)
  have cnt1: "length (filter id (pm[p := False])) = n"
    using filter_update_false[OF pl pp] cnt by (simp add: id_def)
  from Suc.IH[OF b1 fit1 shaped above _ cnt1, of "out[p := t]"] lo
  obtain out' s' where
    loop: "iterative_loop m d a_pm a_ids n [out[p := t]] ?s1 = (Inr [out'], s')"
    and len: "length out' = length out"
    and vals: "\<forall>c < length out. if pm[p := False] ! c then 0 \<le> out' ! c
                 else out' ! c = out[p := t] ! c"
    and cl: "length (calls s') = length (calls ?s1) + n"
    by auto
  have "iterative_loop m d a_pm a_ids (Suc n) [out] s = (Inr [out'], s')"
    by (simp add: andthen_def step loop)
  moreover have "\<forall>c < length out. if pm ! c then 0 \<le> out' ! c else out' ! c = out ! c"
  proof (intro allI impI)
    fix c assume c: "c < length out"
    show "if pm ! c then 0 \<le> out' ! c else out' ! c = out ! c"
    proof (cases "c = p")
      case True
      with vals c pl lp lo have "out' ! c = t" by simp
      with True pp t show ?thesis by simp
    next
      case False
      with vals c pl lp lo show ?thesis by (auto split: if_splits)
    qed
  qed
  moreover have "length (calls s') = length (calls s) + Suc n"
    using cl by (simp add: calls_written_state)
  ultimately show ?case using len by blast
qed

lemma decode_sequential_unfold:
  assumes b: "bundle_at s d kv a_ids a_trig a_pm ids trig pm"
  shows "decode m d ''monotonic'' s
           = monotonic_loop m d a_pm a_ids (count_true pm) (map (map (\<lambda>_. - 100)) ids) s"
    and "decode m d ''iterative'' s
           = iterative_loop m d a_pm a_ids (count_true pm) (map (map (\<lambda>_. - 100)) ids) s"
proof -
  from b have d: "lookup s d = Some (DictO kv)"
    and k: "map_of kv ''input_ids'' = Some a_ids" "map_of kv ''predict_mask'' = Some a_pm"
    and i: "lookup s a_ids = Some (LongT ids)" and p: "lookup s a_pm = Some (BoolT pm)"
    by (simp_all add: bundle_at_def)
  have g1: "dict_getitem d ''input_ids'' s = (Inr a_ids, s)"
    by (rule dict_getitem_ok[OF d k(1)])
  have g2: "get_long a_ids s = (Inr ids, s)" by (rule get_ok(2)[OF i])
  have g3: "dict_getitem d ''predict_mask'' s = (Inr a_pm, s)"
    by (rule dict_getitem_ok[OF d k(2)])
  have g4: "get_bool a_pm s = (Inr pm, s)" by (rule get_ok(3)[OF p])
  show "decode m d ''monotonic'' s
           = monotonic_loop m d a_pm a_ids (count_true pm) (map (map (\<lambda>_. - 100)) ids) s"
    unfolding decode_def decode_monotonic_def
    by (simp add: andthen_def g1 g2 g3 g4 Let_def)
  show "decode m d ''iterative'' s
           = iterative_loop m d a_pm a_ids (count_true pm) (map (map (\<lambda>_. - 100)) ids) s"
    unfolding decode_def decode_iterative_def
    by (simp add: andthen_def g1 g2 g3 g4 Let_def)
qed

lemma resolved_parallel_output:
  assumes "map length logits = map length pm"
  shows "resolved pm (parallel_output pm logits)"
  using assms
proof (induction pm arbitrary: logits)
  case Nil
  then show ?case by (simp add: resolved_def parallel_output_def)
next
  case (Cons bs M)
  then obtain ys Y' where eq: "logits = ys # Y'" by (cases logits) auto
  with Cons.prems have len: "length ys = length bs" "map length Y' = map length M" by simp_all
  have row: "list_all2 (\<lambda>b x. if b then 0 \<le> x else x = - 100) bs
      (map2 (\<lambda>b v. if b then int (argmax v) else - 100) bs ys)"
    using len(1) by (induction bs ys rule: list_induct2') auto
  from Cons.IH[OF len(2)] row show ?case
    by (simp add: resolved_def parallel_output_def eq)
qed

lemma resolved_single:
  assumes "length out' = length pm"
    and "\<forall>c < length pm. if pm ! c then 0 \<le> out' ! c else out' ! c = - 100"
  shows "resolved [pm] [out']"
  using assms by (simp add: resolved_def list_all2_conv_all_nth)

section \<open>The postcondition of decode\<close>

lemmas decode_eval =
  decode_def decode_parallel_def decode_monotonic_def decode_iterative_def monotonic_step_def
  iterative_step_def forward_w_triggers_def dict_copy_def dict_pop_def dict_getitem_def
  dict_setitem_def index_put_mask_def call_model_def get_dict_def get_long_def get_bool_def
  get_emb_def alloc_def put_def ok_def raise_def andthen_def lookup_def count_true_def
  nonzero_def nonzero_row_def logits_shaped_def set_col_def clear_col_def set_cols_def
  clear_cols_def suppress_def top_scores_def top_preds_def argmax_def masked_select_def
  row_select_def Let_def upt_rec[of 0]

lemma model_shaped_bounded: "model_shaped bounded_model"
  by (auto simp: model_shaped_def bounded_model_def logits_shaped_def)

lemma logits_above_bounded: "logits_above bounded_model"
proof -
  have "- (10 ^ 32) < real_of_int (e mod 7)" for e :: int
  proof -
    have "(0 :: real) \<le> real_of_int (e mod 7)" by simp
    moreover have "- (10 ^ 32) < (0 :: real)" by simp
    ultimately show ?thesis by (rule less_le_trans[rotated])
  qed
  then show ?thesis
    by (auto simp: logits_above_def bounded_model_def split: option.splits obj.splits)
qed

text \<open>
  Claim C3, as the code has it. On a well-formed bundle whose trigger mask fits the
  trigger parameters, with a model that returns logits of the shape of its input:
  \<^item> parallel decoding returns a buffer that holds a token id at every position of the
    predict mask as it stood at entry and the sentinel at every other position;
  \<^item> so does monotonic decoding when the batch has a single example;
  \<^item> so does iterative decoding when the batch has a single example and every logit
    the model returns lies above the suppression value.
\<close>

theorem decode_resolves:
  assumes "bundle_at s d kv a_ids a_trig a_pm ids trig pm"
    and "triggers_fit m ids trig"
    and "model_shaped m"
  shows "(\<exists>out. fst (decode m d ''parallel'' s) = Inr out \<and> resolved pm out) \<and>
         (length ids = 1 \<longrightarrow>
            (\<exists>out. fst (decode m d ''monotonic'' s) = Inr out \<and> resolved pm out)) \<and>
         (length ids = 1 \<and> logits_above m \<longrightarrow>
            (\<exists>out. fst (decode m d ''iterative'' s) = Inr out \<and> resolved pm out))"
proof (intro conjI impI)
  from assms(1) have sh: "map length pm = map length ids" by (simp add: bundle_at_def)
  have "logits_shaped pm (forward m (model_kwargs m kv ids trig s) None)"
    by (rule model_shaped_logits[OF assms(3) sh])
  then have "map length (forward m (model_kwargs m kv ids trig s) None) = map length pm"
    by (simp add: logits_shaped_def)
  then show "\<exists>out. fst (decode m d ''parallel'' s) = Inr out \<and> resolved pm out"
    unfolding decode_parallel_ok[OF assms] by (simp add: resolved_parallel_output)
next
  assume one: "length ids = 1"
  from assms(1) have sh: "map length pm = map length ids" "map length trig = map length ids"
    by (simp_all add: bundle_at_def)
  from one obtain i where i: "ids = [i]" by (cases ids) auto
  from sh i obtain p t where pt: "pm = [p]" "trig = [t]" "length p = length i" by auto
  let ?out = "map (\<lambda>_. - 100 :: int) i"
  from monotonic_loop_single[OF assms(1)[unfolded i pt] assms(2)[unfolded i pt] assms(3),
      of ?out "length (filter id p)"]
  obtain out' s' where
    "monotonic_loop m d a_pm a_ids (length (filter id p)) [?out] s = (Inr [out'], s')"
    "length out' = length i"
    "\<forall>c < length i. if p ! c then 0 \<le> out' ! c else out' ! c = ?out ! c"
    by auto
  then show "\<exists>out. fst (decode m d ''monotonic'' s) = Inr out \<and> resolved pm out"
    unfolding decode_sequential_unfold(1)[OF assms(1)] i pt
    using pt(3) by (simp add: count_true_single resolved_single)
next
  assume h: "length ids = 1 \<and> logits_above m"
  then have one: "length ids = 1" and above: "logits_above m" by simp_all
  from assms(1) have sh: "map length pm = map length ids" "map length trig = map length ids"
    by (simp_all add: bundle_at_def)
  from one obtain i where i: "ids = [i]" by (cases ids) auto
  from sh i obtain p t where pt: "pm = [p]" "trig = [t]" "length p = length i" by auto
  let ?out = "map (\<lambda>_. - 100 :: int) i"
  from iterative_loop_single[OF assms(1)[unfolded i pt] assms(2)[unfolded i pt] assms(3) above,
      of ?out "length (filter id p)"]
  obtain out' s' where
    "iterative_loop m d a_pm a_ids (length (filter id p)) [?out] s = (Inr [out'], s')"
    "length out' = length i"
    "\<forall>c < length i. if p ! c then 0 \<le> out' ! c else out' ! c = ?out ! c"
    by auto
  then show "\<exists>out. fst (decode m d ''iterative'' s) = Inr out \<and> resolved pm out"
    unfolding decode_sequential_unfold(2)[OF assms(1)] i pt
    using pt(3) by (simp add: count_true_single resolved_single)
qed

lemma single_bundle:
  "bundle_at single_state 0
      [(''input_ids'', 1), (''attention_mask'', 2), (''trigger_mask'', 3), (''predict_mask'', 4)]
      1 3 4 [[5, 103, 0, 103]] [[False, False, True, False]] [[False, True, False, True]]"
  by (simp add: bundle_at_def single_state_def lookup_def)

theorem decode_resolves_witness:
  "(\<exists>out. fst (decode bounded_model 0 ''parallel'' single_state) = Inr out \<and>
      resolved [[False, True, False, True]] out) \<and>
   (\<exists>out. fst (decode bounded_model 0 ''monotonic'' single_state) = Inr out \<and>
      resolved [[False, True, False, True]] out) \<and>
   (\<exists>out. fst (decode bounded_model 0 ''iterative'' single_state) = Inr out \<and>
      resolved [[False, True, False, True]] out)"
proof -
  have f: "triggers_fit bounded_model [[5, 103, 0, 103]] [[False, False, True, False]]"
    by (simp add: triggers_fit_def bounded_model_def)
  show ?thesis
    using decode_resolves[OF single_bundle f model_shaped_bounded] logits_above_bounded
    by simp
qed

text \<open>
  The claim as stated fails. With a single example and logits below the suppression
  value, iterative decoding commits the suppressed position 0 twice and leaves both
  predict positions at the sentinel. In the two-example scenario of the specification,
  iterative decoding runs two iterations, the second on an empty mask, and writes token
  0 to position 0 of both examples, which is no predict position.
\<close>

theorem decode_resolves_counterexample:
  "fst (decode low_model 0 ''iterative'' single_state) = Inr [[0, - 100, - 100, - 100]] \<and>
   \<not> resolved [[False, True, False, True]] [[0, - 100, - 100, - 100]] \<and>
   fst (decode scenario_model 0 ''iterative'' scenario_state)
     = Inr [[0, - 100, - 100, - 100, 1, - 100], [0, - 100, - 100, - 100, 2, - 100]] \<and>
   \<not> resolved [[False, False, False, False, True, False], [False, False, False, False, True, False]]
        [[0, - 100, - 100, - 100, 1, - 100], [0, - 100, - 100, - 100, 2, - 100]]"
proof (intro conjI)
  show "fst (decode low_model 0 ''iterative'' single_state) = Inr [[0, - 100, - 100, - 100]]"
    by (simp add: decode_eval low_model_def single_state_def)
  show "\<not> resolved [[False, True, False, True]] [[0, - 100, - 100, - 100]]"
    by (simp add: resolved_def)
  show "fst (decode scenario_model 0 ''iterative'' scenario_state)
     = Inr [[0, - 100, - 100, - 100, 1, - 100], [0, - 100, - 100, - 100, 2, - 100]]"
    by (simp add: decode_eval scenario_model_def scenario_state_def)
  show "\<not> resolved [[False, False, False, False, True, False],
      [False, False, False, False, True, False]]
        [[0, - 100, - 100, - 100, 1, - 100], [0, - 100, - 100, - 100, 2, - 100]]"
    by (simp add: resolved_def)
qed

section \<open>Sequential decoding of batches; order of selection\<close>

text \<open>
  On a single example one iteration of the monotonic strategy commits the leftmost open
  position: no position before it is open.
\<close>

lemma monotonic_step_single:
  assumes b: "bundle_at s d kv a_ids a_trig a_pm [ids] [trig] [pm]"
    and fit: "triggers_fit m [ids] [trig]"
    and shaped: "model_shaped m"
    and op: "q < length pm" "pm ! q"
    and lo: "length out = length ids"
  shows "\<exists>idx t. idx < length pm \<and> pm ! idx \<and> (\<forall>c < idx. \<not> pm ! c) \<and> 0 \<le> t \<and>
     monotonic_step m d a_pm a_ids [out] s =
       (Inr [out[idx := t]],
        written_state m kv [ids] [trig] a_ids [ids[idx := t]] a_pm [pm[idx := False]] s)"
proof -
  from op(1) have "pm ! q \<in> set pm" by (rule nth_mem)
  with op(2) have "\<exists>b \<in> set pm. b" by blast
  then have "filter id pm \<noteq> []"
    by (simp add: filter_empty_conv id_def)
  then have "nonzero [pm] \<noteq> []" by (simp add: nonzero_single_empty id_def)
  then obtain r idx rest where nz: "nonzero [pm] = (r, idx) # rest"
    by (cases "nonzero [pm]") auto
  note first = nonzero_single_first[OF nz]
  let ?logits = "forward m (model_kwargs m kv [ids] [trig] s) None"
  have "logits_shaped [pm] ?logits"
    using b by (intro model_shaped_logits[OF shaped]) (simp add: bundle_at_def)
  then have "length ?logits = 1" using logits_shaped_length by fastforce
  then obtain l where l: "?logits = [l]" by (cases ?logits) auto
  define t where "t = int (argmax (l ! idx))"
  have pred: "monotonic_pred ?logits idx = [t]" by (simp add: monotonic_pred_def l t_def)
  have "monotonic_step m d a_pm a_ids [out] s =
      (Inr [out[idx := t]],
       written_state m kv [ids] [trig] a_ids [ids[idx := t]] a_pm [pm[idx := False]] s)"
    using monotonic_step_ok[OF b fit shaped nz, of "[out]"] lo
    by (simp add: pred set_col_single clear_col_single)
  moreover have "0 \<le> t" by (simp add: t_def)
  ultimately show ?thesis using first by blast
qed

text \<open>
  Claim C1 fails on batches of more than one example. In the two-example scenario of the
  specification (predict position 4 in both examples) the loop is set up for two
  iterations, the first clears column 4 in both rows, and the second indexes row 0 of an
  empty \<^verbatim>\<open>nonzero()\<close> result. With predict position 1 in the first example and 0 in
  the second, the first iteration commits column 1 and the second column 0, in both rows
  each time: the second forward pass sees token 1 at index 1 while index 0 of the second
  example still holds its placeholder 103, and the output holds tokens at the positions
  (0, 0) and (1, 1), which are no predict positions.
\<close>

theorem monotonic_batch_failure:
  "fst (decode scenario_model 0 ''monotonic'' scenario_state) = Inl IndexError \<and>
   fst (decode scenario_model 0 ''monotonic'' crossed_state) = Inr [[1, 1, - 100], [1, 1, - 100]] \<and>
   calls (snd (decode scenario_model 0 ''monotonic'' crossed_state))
     = [[(''attention_mask'', LongT [[1, 1, 1], [1, 1, 1]]),
         (''inputs_embeds'', EmbT [[11, 103, 1000], [103, 12, 1000]])],
        [(''attention_mask'', LongT [[1, 1, 1], [1, 1, 1]]),
         (''inputs_embeds'', EmbT [[11, 1, 1000], [103, 1, 1000]])]]"
proof (intro conjI)
  show "fst (decode scenario_model 0 ''monotonic'' scenario_state) = Inl IndexError"
    by (simp add: decode_eval scenario_model_def scenario_state_def)
  show "fst (decode scenario_model 0 ''monotonic'' crossed_state)
      = Inr [[1, 1, - 100], [1, 1, - 100]]"
    by (simp add: decode_eval scenario_model_def crossed_state_def)
  show "calls (snd (decode scenario_model 0 ''monotonic'' crossed_state))
     = [[(''attention_mask'', LongT [[1, 1, 1], [1, 1, 1]]),
         (''inputs_embeds'', EmbT [[11, 103, 1000], [103, 12, 1000]])],
        [(''attention_mask'', LongT [[1, 1, 1], [1, 1, 1]]),
         (''inputs_embeds'', EmbT [[11, 1, 1000], [103, 1, 1000]])]]"
    by (simp add: decode_eval scenario_model_def crossed_state_def)
qed

text \<open>
  The claim C2 as stated fails already on a single example: every iteration observes a
  new forward pass, so the values at which positions are selected need not decrease.
  Here position 1 is selected first, at 995; the second forward pass sees the committed
  token at position 1 and position 0 is selected at 999.
\<close>

theorem iterative_order_counterexample:
  "fst (decode context_model 0 ''iterative'' pair_state) = Inr [[1, 1, - 100]] \<and>
   calls (snd (decode context_model 0 ''iterative'' pair_state))
     = [[(''attention_mask'', LongT [[1, 1, 1]]), (''inputs_embeds'', EmbT [[5, 20, 1000]])],
        [(''attention_mask'', LongT [[1, 1, 1]]), (''inputs_embeds'', EmbT [[5, 1, 1000]])]] \<and>
   iterative_idx [[True, True, False]]
     (forward context_model
        [(''attention_mask'', LongT [[1, 1, 1]]), (''inputs_embeds'', EmbT [[5, 20, 1000]])]
        None) = [1] \<and>
   selection_score [[True, True, False]]
     (forward context_model
        [(''attention_mask'', LongT [[1, 1, 1]]), (''inputs_embeds'', EmbT [[5, 20, 1000]])]
        None) = 995 \<and>
   iterative_idx [[True, False, False]]
     (forward context_model
        [(''attention_mask'', LongT [[1, 1, 1]]), (''inputs_embeds'', EmbT [[5, 1, 1000]])]
        None) = [0] \<and>
   selection_score [[True, False, False]]
     (forward context_model
        [(''attention_mask'', LongT [[1, 1, 1]]), (''inputs_embeds'', EmbT [[5, 1, 1000]])]
        None) = 999"
proof (intro conjI)
  show "fst (decode context_model 0 ''iterative'' pair_state) = Inr [[1, 1, - 100]]"
    by (simp add: decode_eval context_model_def pair_state_def)
  show "calls (snd (decode context_model 0 ''iterative'' pair_state))
     = [[(''attention_mask'', LongT [[1, 1, 1]]), (''inputs_embeds'', EmbT [[5, 20, 1000]])],
        [(''attention_mask'', LongT [[1, 1, 1]]), (''inputs_embeds'', EmbT [[5, 1, 1000]])]]"
    by (simp add: decode_eval context_model_def pair_state_def)
  show "iterative_idx [[True, True, False]]
     (forward context_model
        [(''attention_mask'', LongT [[1, 1, 1]]), (''inputs_embeds'', EmbT [[5, 20, 1000]])]
        None) = [1]"
    by (simp add: iterative_idx_def decode_eval context_model_def)
  show "selection_score [[True, True, False]]
     (forward context_model
        [(''attention_mask'', LongT [[1, 1, 1]]), (''inputs_embeds'', EmbT [[5, 20, 1000]])]
        None) = 995"
    by (simp add: selection_score_def iterative_idx_def decode_eval context_model_def)
  show "iterative_idx [[True, False, False]]
     (forward context_model
        [(''attention_mask'', LongT [[1, 1, 1]]), (''inputs_embeds'', EmbT [[5, 1, 1000]])]
        None) = [0]"
    by (simp add: iterative_idx_def decode_eval context_model_def)
  show "selection_score [[True, False, False]]
     (forward context_model
        [(''attention_mask'', LongT [[1, 1, 1]]), (''inputs_embeds'', EmbT [[5, 1, 1000]])]
        None) = 999"
    by (simp add: selection_score_def iterative_idx_def decode_eval context_model_def)
qed

section \<open>Column writes\<close>













section \<open>The sequential strategies commit whole columns\<close>







section \<open>Row permutations when trigger positions are uneven\<close>

lemma model_shaped_mixing: "model_shaped mixing_model"
  by (auto simp: model_shaped_def mixing_model_def logits_shaped_def)

lemma row_equivariant_mixing: "row_equivariant mixing_model"
  unfolding row_equivariant_def
proof (intro allI impI)
  fix kw :: "int kwargs" and p E
  let ?g = "\<lambda>row. map (\<lambda>e. [real_of_int e, real_of_int (2000 - sum_list row + e)]) row"
  assume e: "map_of kw ''inputs_embeds'' = Some (EmbT E)" and p: "set p \<subseteq> {..<length E}"
  have "forward mixing_model (permute_kwargs p kw) None = map ?g (permute_rows p E)"
    by (simp add: mixing_model_def map_of_permute_kwargs e)
  also have "\<dots> = permute_rows p (map ?g E)"
    using p by (induction p) (auto simp: permute_rows_def)
  also have "\<dots> = permute_rows p (forward mixing_model kw None)"
    by (simp add: mixing_model_def e)
  finally show "forward mixing_model (permute_kwargs p kw) None
      = permute_rows p (forward mixing_model kw None)" .
qed

text \<open>
  The claim as stated fails when the trigger positions are not spread evenly over the
  examples. The trigger vectors are written to the trigger positions in row-major order
  of the whole batch, so the one trigger position of the second example receives the
  second vector in the original order and the first vector after the swap; the model
  works row by row, both calls return, and the output of the swapped bundle is not the
  swapped output of the original bundle.
\<close>

theorem decode_parallel_permutation_counterexample:
  "row_equivariant mixing_model \<and> model_shaped mixing_model \<and>
   bundle_values mixed_swapped_state
      [(''input_ids'', 1), (''attention_mask'', 2), (''trigger_mask'', 3), (''predict_mask'', 4)]
     = permute_kwargs [1, 0] (bundle_values mixed_state
      [(''input_ids'', 1), (''attention_mask'', 2), (''trigger_mask'', 3), (''predict_mask'', 4)]) \<and>
   fst (decode mixing_model 0 ''parallel'' mixed_state)
     = Inr [[- 100, - 100, - 100], [0, - 100, - 100]] \<and>
   fst (decode mixing_model 0 ''parallel'' mixed_swapped_state)
     = Inr [[1, - 100, - 100], [- 100, - 100, - 100]] \<and>
   permute_rows [1, 0] [[- 100, - 100, - 100], [0, - 100, - 100]]
     = [[0, - 100, - 100], [- 100, - 100, - 100]] \<and>
   [[0, - 100, - 100], [- 100, - 100, - 100]] \<noteq> [[1, - 100, - 100], [- 100, - 100, - 100 :: int]]"
proof (intro conjI)
  show "row_equivariant mixing_model" by (rule row_equivariant_mixing)
  show "model_shaped mixing_model" by (rule model_shaped_mixing)
  show "bundle_values mixed_swapped_state
      [(''input_ids'', 1), (''attention_mask'', 2), (''trigger_mask'', 3), (''predict_mask'', 4)]
     = permute_kwargs [1, 0] (bundle_values mixed_state
      [(''input_ids'', 1), (''attention_mask'', 2), (''trigger_mask'', 3), (''predict_mask'', 4)])"
    by (simp add: bundle_values_def permute_kwargs_def mixed_swapped_state_def mixed_state_def
        permute_rows_def)
  show "fst (decode mixing_model 0 ''parallel'' mixed_state)
     = Inr [[- 100, - 100, - 100], [0, - 100, - 100]]"
    by (simp add: decode_eval mixing_model_def mixed_state_def)
  show "fst (decode mixing_model 0 ''parallel'' mixed_swapped_state)
     = Inr [[1, - 100, - 100], [- 100, - 100, - 100]]"
    by (simp add: decode_eval mixing_model_def mixed_swapped_state_def)
  show "permute_rows [1, 0] [[- 100, - 100, - 100], [0, - 100, - 100]]
     = [[0, - 100, - 100], [- 100, - 100, - 100]]"
    by (simp add: permute_rows_def)
  show "[[0, - 100, - 100], [- 100, - 100, - 100]]
      \<noteq> [[1, - 100, - 100], [- 100, - 100, - 100 :: int]]"
    by simp
qed

section \<open>Iterative decoding of a single example is a best-first run\<close>

lemma argmax_first: "j < argmax xs \<Longrightarrow> xs ! j < xs ! argmax xs"
proof -
  let ?P = "\<lambda>x. x \<noteq> Max (set xs)"
  assume j: "j < argmax xs"
  then have jl: "j < length (takeWhile ?P xs)" by (simp add: argmax_def)
  then have "takeWhile ?P xs ! j \<in> set (takeWhile ?P xs)" by (rule nth_mem)
  then have "?P (takeWhile ?P xs ! j)" by (blast dest: set_takeWhileD)
  with takeWhile_nth[OF jl] have ne: "xs ! j \<noteq> Max (set xs)" by simp
  have len: "length (takeWhile ?P xs) \<le> length xs" by (rule length_takeWhile_le)
  with jl have jx: "j < length xs" by simp
  then have "xs \<noteq> []" by auto
  then have "xs ! argmax xs = Max (set xs)" by (rule argmax_max)
  moreover have "xs ! j \<le> Max (set xs)" using jx by (intro Max_ge) simp_all
  ultimately show ?thesis using ne by simp
qed

text \<open>
  One iteration of the iterative strategy on a single example with an open position and
  logits above the suppression value: the committed position is open, its top logit is
  the highest among the open positions, and it is the leftmost such position.
\<close>

lemma iterative_step_best:
  assumes b: "bundle_at s d kv a_ids a_trig a_pm [ids] [trig] [pm]"
    and fit: "triggers_fit m [ids] [trig]"
    and shaped: "model_shaped m"
    and above: "logits_above m"
    and op: "q < length pm" "pm ! q"
    and lo: "length out = length ids"
  defines "l \<equiv> hd (forward m (model_kwargs m kv [ids] [trig] s) None)"
  defines "p \<equiv> argmax (hd (top_scores (suppress [pm] [l])))"
  defines "t \<equiv> int (argmax (l ! p))"
  shows "iterative_step m d a_pm a_ids [out] s =
           (Inr [out[p := t]],
            written_state m kv [ids] [trig] a_ids [ids[p := t]] a_pm [pm[p := False]] s)"
    and "p < length pm" and "pm ! p"
    and "\<forall>c < length pm. pm ! c \<longrightarrow> Max (set (l ! c)) \<le> Max (set (l ! p))"
    and "\<forall>c < p. pm ! c \<longrightarrow> Max (set (l ! c)) < Max (set (l ! p))"
proof -
  let ?logits = "forward m (model_kwargs m kv [ids] [trig] s) None"
  from op have ne: "pm \<noteq> []" by auto
  have sh: "logits_shaped [pm] ?logits"
    using b by (intro model_shaped_logits[OF shaped]) (simp add: bundle_at_def)
  then have "length ?logits = 1" using logits_shaped_length by fastforce
  then have l: "?logits = [l]" unfolding l_def by (cases ?logits) auto
  from sh have ll: "length l = length pm" and nel: "\<forall>v \<in> set l. v \<noteq> []"
    by (simp_all add: logits_shaped_def l)
  have abl: "\<forall>v \<in> set l. \<forall>x \<in> set v. - (10 ^ 32) < x"
  proof -
    have "l \<in> set ?logits" by (simp add: l)
    with above show ?thesis unfolding logits_above_def by blast
  qed
  let ?scores = "hd (top_scores (suppress [pm] [l]))"
  show pp: "pm ! p"
    unfolding p_def by (rule single_selected_open[OF ll nel abl op])
  have ls: "length ?scores = length pm" by (rule single_scores_length[OF ll])
  with ne have "?scores \<noteq> []" by auto
  then show pl: "p < length pm"
    using argmax_less[of ?scores] ls by (simp add: p_def)
  have tp: "int (hd (top_preds (suppress [pm] [l])) ! p) = t"
    unfolding t_def using single_preds_nth[OF ll pl pp] by simp
  show "iterative_step m d a_pm a_ids [out] s =
      (Inr [out[p := t]],
       written_state m kv [ids] [trig] a_ids [ids[p := t]] a_pm [pm[p := False]] s)"
    using iterative_step_single[OF b fit shaped ne lo] unfolding l p_def[symmetric] tp .
  have np: "l ! p \<noteq> []" using nel pl ll by (simp add: nth_mem)
  have sp: "?scores ! p = Max (set (l ! p))"
    using single_scores_nth[OF ll pl np] pp by simp
  have sc: "?scores ! c = Max (set (l ! c))" if "c < length pm" "pm ! c" for c
  proof -
    have "l ! c \<noteq> []" using nel that(1) ll by (simp add: nth_mem)
    from single_scores_nth[OF ll that(1) this] that(2) show ?thesis by simp
  qed
  show "\<forall>c < length pm. pm ! c \<longrightarrow> Max (set (l ! c)) \<le> Max (set (l ! p))"
  proof (intro allI impI)
    fix c assume c: "c < length pm" "pm ! c"
    have "?scores ! c \<le> ?scores ! p"
      unfolding p_def using c(1) ls by (intro argmax_ge) simp
    with sc[OF c] sp show "Max (set (l ! c)) \<le> Max (set (l ! p))" by simp
  qed
  show "\<forall>c < p. pm ! c \<longrightarrow> Max (set (l ! c)) < Max (set (l ! p))"
  proof (intro allI impI)
    fix c assume c: "c < p" "pm ! c"
    with pl have cl: "c < length pm" by simp
    have "?scores ! c < ?scores ! p"
      unfolding p_def using c(1) by (intro argmax_first) (simp add: p_def)
    with sc[OF cl c(2)] sp show "Max (set (l ! c)) < Max (set (l ! p))" by simp
  qed
qed

lemma iterative_loop_best_first:
  assumes "bundle_at s d kv a_ids a_trig a_pm [ids] [trig] [pm]"
    and "triggers_fit m [ids] [trig]"
    and "model_shaped m"
    and "logits_above m"
    and "length out = length ids"
    and "length (filter id pm) = n"
  shows "\<exists>out' s'. iterative_loop m d a_pm a_ids n [out] s = (Inr [out'], s') \<and>
           best_first_run m d kv a_ids a_trig a_pm trig n s out s' out'"
  using assms
proof (induction n arbitrary: s ids pm out)
  case 0
  then show ?case by (auto simp: ok_def intro: best_first_run.finished)
next
  case (Suc n)
  note b = Suc.prems(1) and fit = Suc.prems(2) and shaped = Suc.prems(3)
    and above = Suc.prems(4) and lo = Suc.prems(5) and cnt = Suc.prems(6)
  from cnt have "filter id pm \<noteq> []" by (auto simp: id_def)
  then obtain q where q: "q < length pm" "pm ! q"
    by (auto simp: filter_empty_conv in_set_conv_nth id_def)
  define l where "l = hd (forward m (model_kwargs m kv [ids] [trig] s) None)"
  define p where "p = argmax (hd (top_scores (suppress [pm] [l])))"
  define t where "t = int (argmax (l ! p))"
  let ?s1 = "written_state m kv [ids] [trig] a_ids [ids[p := t]] a_pm [pm[p := False]] s"
  note best = iterative_step_best[OF b fit shaped above q lo, folded l_def p_def t_def]
  have b1: "bundle_at ?s1 d kv a_ids a_trig a_pm [ids[p := t]] [trig] [pm[p := False]]"
    by (rule bundle_written[OF b]) simp_all
  have fit1: "triggers_fit m [ids[p := t]] [trig]"
    using fit by (simp add: triggers_fit_def)
  have cnt1: "length (filter id (pm[p := False])) = n"
    using filter_update_false[OF best(2,3)] cnt by (simp add: id_def)
  from Suc.IH[OF b1 fit1 shaped above _ cnt1, of "out[p := t]"] lo
  obtain out' s' where
    loop: "iterative_loop m d a_pm a_ids n [out[p := t]] ?s1 = (Inr [out'], s')"
    and run: "best_first_run m d kv a_ids a_trig a_pm trig n ?s1 (out[p := t]) s' out'"
    by auto
  have "iterative_loop m d a_pm a_ids (Suc n) [out] s = (Inr [out'], s')"
    by (simp add: andthen_def best(1) loop)
  moreover have "best_first_run m d kv a_ids a_trig a_pm trig (Suc n) s out s' out'"
    by (rule best_first_run.commit[OF b l_def best(2,3,4,5) t_def _ b1 run])
       (simp add: calls_written_state)
  ultimately show ?case by blast
qed

text \<open>
  Claim C2, as the code has it. On a well-formed bundle of a single example, with a
  model whose logits have the shape of its input and lie above the suppression value,
  \<open>decode\<close> with the iterative strategy returns, and what it did is a best-first run of
  exactly as many iterations as the predict mask had true positions at entry: every
  iteration ran one forward pass, committed the open position with the highest top
  logit of that pass (the leftmost one on ties) to the output buffer and the shared
  token ids, and cleared it in the shared predict mask. Nothing is said about how the
  values selected in successive iterations compare: every iteration observes the logits
  of a new forward pass.
\<close>

theorem decode_iterative_best_first:
  assumes "bundle_at s d kv a_ids a_trig a_pm [ids] [trig] [pm]"
    and "triggers_fit m [ids] [trig]"
    and "model_shaped m"
    and "logits_above m"
  shows "\<exists>out' s'. decode m d ''iterative'' s = (Inr [out'], s') \<and>
           best_first_run m d kv a_ids a_trig a_pm trig (length (filter id pm)) s
             (map (\<lambda>_. - 100) ids) s' out'"
  unfolding decode_sequential_unfold(2)[OF assms(1)] count_true_single
  using iterative_loop_best_first[OF assms, of "map (\<lambda>_. - 100) ids" "length (filter id pm)"]
  by simp

lemma graded_bundle:
  "bundle_at graded_state 0
      [(''input_ids'', 1), (''attention_mask'', 2), (''trigger_mask'', 3), (''predict_mask'', 4)]
      1 3 4 [[5, 103, 0, 104]] [[False, False, True, False]] [[False, True, False, True]]"
  by (simp add: bundle_at_def graded_state_def lookup_def)

theorem decode_iterative_best_first_witness:
  "\<exists>s'. decode bounded_model 0 ''iterative'' graded_state = (Inr [[- 100, 1, - 100, 1]], s') \<and>
     best_first_run bounded_model 0
       [(''input_ids'', 1), (''attention_mask'', 2), (''trigger_mask'', 3), (''predict_mask'', 4)]
       1 3 4 [False, False, True, False] 2 graded_state [- 100, - 100, - 100, - 100]
       s' [- 100, 1, - 100, 1] \<and>
     calls s'
       = [[(''attention_mask'', LongT [[1, 1, 1, 1]]),
           (''inputs_embeds'', EmbT [[5, 103, 1000, 104]])],
          [(''attention_mask'', LongT [[1, 1, 1, 1]]),
           (''inputs_embeds'', EmbT [[5, 103, 1000, 1]])]] \<and>
     top_scores (suppress [[False, True, False, True]]
       (forward bounded_model
          [(''attention_mask'', LongT [[1, 1, 1, 1]]),
           (''inputs_embeds'', EmbT [[5, 103, 1000, 104]])] None))
       = [[- (10 ^ 32), 5, - (10 ^ 32), 6]]"
proof -
  have f: "triggers_fit bounded_model [[5, 103, 0, 104]] [[False, False, True, False]]"
    by (simp add: triggers_fit_def bounded_model_def)
  have n: "length (filter id [False, True, False, True]) = 2" by simp
  have i: "map (\<lambda>_. - 100) [5, 103, 0, 104 :: int] = [- 100, - 100, - 100, - 100 :: int]"
    by simp
  from decode_iterative_best_first[OF graded_bundle f model_shaped_bounded
      logits_above_bounded, unfolded n i]
  obtain out' s' where
    d: "decode bounded_model 0 ''iterative'' graded_state = (Inr [out'], s')"
    and r: "best_first_run bounded_model 0
       [(''input_ids'', 1), (''attention_mask'', 2), (''trigger_mask'', 3), (''predict_mask'', 4)]
       1 3 4 [False, False, True, False] 2 graded_state [- 100, - 100, - 100, - 100] s' out'"
    by blast
  have "fst (decode bounded_model 0 ''iterative'' graded_state) = Inr [[- 100, 1, - 100, 1]]"
    by (simp add: decode_eval bounded_model_def graded_state_def)
  with d have o: "out' = [- 100, 1, - 100, 1]" by simp
  have "calls (snd (decode bounded_model 0 ''iterative'' graded_state))
       = [[(''attention_mask'', LongT [[1, 1, 1, 1]]),
           (''inputs_embeds'', EmbT [[5, 103, 1000, 104]])],
          [(''attention_mask'', LongT [[1, 1, 1, 1]]),
           (''inputs_embeds'', EmbT [[5, 103, 1000, 1]])]]"
    by (simp add: decode_eval bounded_model_def graded_state_def)
  with d have c: "calls s'
       = [[(''attention_mask'', LongT [[1, 1, 1, 1]]),
           (''inputs_embeds'', EmbT [[5, 103, 1000, 104]])],
          [(''attention_mask'', LongT [[1, 1, 1, 1]]),
           (''inputs_embeds'', EmbT [[5, 103, 1000, 1]])]]"
    by simp
  have t: "top_scores (suppress [[False, True, False, True]]
       (forward bounded_model
          [(''attention_mask'', LongT [[1, 1, 1, 1]]),
           (''inputs_embeds'', EmbT [[5, 103, 1000, 104]])] None))
       = [[- (10 ^ 32), 5, - (10 ^ 32), 6]]"
    by (simp add: top_scores_def suppress_def bounded_model_def)
  from d r c t show ?thesis unfolding o by blast
qed

section \<open>The sequential loops commit whole columns\<close>





section \<open>The sequential strategies on a batch\<close>





end
